theory Spec2Isabelle
  imports
    Complex_Main
    "HOL-Library.Word"
    "HOL-Library.Char_ord"
    "HOL-Library.List_Lexorder"
    "HOL-Library.Product_Lexorder"
    "HOL-Library.Multiset"
begin

unbundle bit_operations_syntax

section \<open>SequenceDesigner.py: the pulse-program compiler\<close>

text \<open>
  The development follows \<^verbatim>\<open>SequenceDesigner.py\<close> class by class. Exceptions are
  values of \<open>error\<close>; every method that can raise returns \<open>error + _\<close>, with \<open>Inl\<close>
  for the exception.
\<close>

subsection \<open>Python numbers\<close>

text \<open>
  The YAML loader yields a number as a Python \<open>int\<close>, which is unbounded, or as a
  \<open>float\<close>, an IEEE binary64 value. \<open>PyFloat m e\<close> is the float \<open>m * 2 ^ e\<close>, with a
  mantissa \<open>m\<close> of at most 53 bits. The digital event compiler computes with the
  numbers as they come: two integers are added and subtracted exactly, and as soon as
  a float takes part the integer is converted and the result is rounded to 53
  significant bits, to the nearest value and to the even one on a tie. Infinities,
  NaN and the limits of the exponent range are not modelled.
\<close>

datatype num = PyInt int | PyFloat int int

text \<open>The number of bits of a natural number.\<close>

fun nbits :: "nat \<Rightarrow> nat" where
  "nbits n = (if n = 0 then 0 else Suc (nbits (n div 2)))"

declare nbits.simps [simp del]

text \<open>\<open>m / 2 ^ sh\<close> for \<open>m \<ge> 0\<close>, rounded to the nearest integer, a tie to the even one.\<close>

definition round_half_even :: "int \<Rightarrow> nat \<Rightarrow> int" where
  "round_half_even m sh =
     (let q = m div 2 ^ sh; r = m mod 2 ^ sh
      in if 2 * r < 2 ^ sh then q else if 2 ^ sh < 2 * r then q + 1
         else if even q then q else q + 1)"

text \<open>A float is kept with an odd mantissa (zero as \<open>(0, 0)\<close>), so that equal floats are
  equal pairs.\<close>

function normalize_float :: "int \<times> int \<Rightarrow> int \<times> int" where
  "normalize_float (m, e) =
     (if m = 0 then (0, 0)
      else if even m then normalize_float (m div 2, e + 1)
      else (m, e))"
  by pat_completeness auto
termination
  by (relation "measure (\<lambda>(m, e). nat \<bar>m\<bar>)") auto

declare normalize_float.simps [simp del]

text \<open>The float nearest to \<open>m * 2 ^ e\<close>.\<close>

definition round53 :: "int \<Rightarrow> int \<Rightarrow> int \<times> int" where
  "round53 m e =
     (let n = nbits (nat \<bar>m\<bar>)
      in if n \<le> 53 then normalize_float (m, e)
         else normalize_float (sgn m * round_half_even \<bar>m\<bar> (n - 53), e + int (n - 53)))"

definition float_add :: "int \<times> int \<Rightarrow> int \<times> int \<Rightarrow> int \<times> int" where
  "float_add x y =
     (let e = min (snd x) (snd y)
      in round53 (fst x * 2 ^ nat (snd x - e) + fst y * 2 ^ nat (snd y - e)) e)"

text \<open>The conversion that arithmetic applies to an operand: an \<open>int\<close> becomes the
  nearest float.\<close>

definition to_float :: "num \<Rightarrow> int \<times> int" where
  "to_float a = (case a of PyInt x \<Rightarrow> round53 x 0 | PyFloat m e \<Rightarrow> (m, e))"

definition num_add :: "num \<Rightarrow> num \<Rightarrow> num" where
  "num_add a b =
     (case (a, b) of
        (PyInt x, PyInt y) \<Rightarrow> PyInt (x + y)
      | _ \<Rightarrow> (let (m, e) = float_add (to_float a) (to_float b) in PyFloat m e))"

definition num_sub :: "num \<Rightarrow> num \<Rightarrow> num" where
  "num_sub a b =
     (case (a, b) of
        (PyInt x, PyInt y) \<Rightarrow> PyInt (x - y)
      | _ \<Rightarrow> (let (m, e) = float_add (to_float a) (- fst (to_float b), snd (to_float b))
             in PyFloat m e))"

text \<open>The value of a number. Python compares numbers (\<open>==\<close>, \<open>!=\<close>, \<open><\<close>, also an
  \<open>int\<close> with a \<open>float\<close>) by their exact values.\<close>

definition num_val :: "num \<Rightarrow> real" where
  "num_val a =
     (case a of
        PyInt x \<Rightarrow> of_int x
      | PyFloat m e \<Rightarrow> if 0 \<le> e then of_int m * 2 ^ nat e else of_int m / 2 ^ nat (- e))"

definition is_int :: "num \<Rightarrow> bool" where
  "is_int a = (case a of PyInt _ \<Rightarrow> True | PyFloat _ _ \<Rightarrow> False)"

subsection \<open>The specification document\<close>

datatype error =
  KeyError | ValueError | IndexError | TypeError | FileNotFoundError | ZeroDivisionError

text \<open>One pulse of the YAML document: \<open>start\<close> and \<open>duration\<close> are read by both
  compilers, \<open>amplitude\<close>, \<open>frequency\<close> and \<open>phase\<close> only by the analog one (a missing
  key is \<open>None\<close>, and reading it raises \<open>KeyError\<close>). The analog compiler passes every
  number through \<open>float()\<close> and computes sample values with numpy; there a number is
  idealised as the real number it stands for.\<close>

record pulse =
  p_start :: num
  p_duration :: num
  p_amplitude :: "real option"
  p_frequency :: "real option"
  p_phase :: "real option"

text \<open>A block is a dict from channel name to a dict of pulses, in document order;
  only \<open>.items()\<close> and \<open>.values()\<close> are used, so it is a list of pairs.\<close>

type_synonym block = "(string \<times> pulse list) list"

text \<open>\<open>total_duration\<close> is a number or the string \<open>"ignore"\<close>.\<close>

datatype total = Ignore | Total num

record yaml_doc =
  sequencing_order :: "string list"
  sequencing_repeats :: "int list"
  doc_total_duration :: total
  blocks :: "string \<rightharpoonup> block"

subsection \<open>PulseBlasterSequence\<close>

text \<open>\<open>warnings.warn\<close> in \<open>_pop_uncessary_entries\<close> reports a skipped index and the
  length of the list it did not fit; the call returns normally.\<close>

datatype warning = BadDurationsIndex nat nat | BadBitsIndex nat nat

record pb_state =
  event_times :: "num list"
  event_durations :: "num list"
  event_channel :: "string list"
  events :: "string list"
  channel_bits :: "int list"
  segment_durations :: "num list"
  channel_mapping :: "string \<rightharpoonup> nat"
  ps :: "string \<rightharpoonup> (int list \<times> num list)"
  yaml_sequence :: yaml_doc
  total_duration :: total
  warned :: "warning list"

text \<open>\<open>__init__\<close>, with the loaded document as argument.\<close>

definition pb_init :: "(string \<rightharpoonup> nat) \<Rightarrow> yaml_doc \<Rightarrow> pb_state" where
  "pb_init cm doc =
     \<lparr>event_times = [], event_durations = [], event_channel = [], events = [],
      channel_bits = [], segment_durations = [], channel_mapping = cm, ps = Map.empty,
      yaml_sequence = doc, total_duration = doc_total_duration doc, warned = []\<rparr>"

definition reset_attributes :: "pb_state \<Rightarrow> pb_state" where
  "reset_attributes s =
     s\<lparr>event_times := [], event_durations := [], event_channel := [], events := [],
       channel_bits := [], segment_durations := []\<rparr>"

definition append_event :: "string \<Rightarrow> pulse \<Rightarrow> pb_state \<Rightarrow> pb_state" where
  "append_event channel p s =
     s\<lparr>event_times := event_times s @ [p_start p, num_add (p_start p) (p_duration p)],
       event_channel := event_channel s @ [channel, channel],
       events := events s @ [''up'', ''down'']\<rparr>"

definition parse_channel :: "string \<Rightarrow> pulse list \<Rightarrow> pb_state \<Rightarrow> pb_state" where
  "parse_channel channel channel_pulses s = fold (append_event channel) channel_pulses s"

definition parse_block :: "block \<Rightarrow> pb_state \<Rightarrow> pb_state" where
  "parse_block ps_block s =
     fold (\<lambda>(channel, channel_pulses). parse_channel channel channel_pulses) ps_block s"

text \<open>\<open>sorted(zip(times, channels, events))\<close> compares the triples as Python tuples,
  lexicographically, the times by value and the strings character by character: the
  order of \<open>real \<times> string \<times> string\<close> on the keys below. \<open>sorted\<close> is stable, as
  \<open>sort_key\<close> is: triples that compare equal keep their order. Unpacking the
  transposed empty list raises \<open>ValueError\<close>.\<close>

type_synonym event = "num \<times> string \<times> string"

definition timeline :: "pb_state \<Rightarrow> event list" where
  "timeline s = zip (event_times s) (zip (event_channel s) (events s))"

definition event_key :: "event \<Rightarrow> real \<times> string \<times> string" where
  "event_key x = (num_val (fst x), snd x)"

definition sort_pulses :: "pb_state \<Rightarrow> error + pb_state" where
  "sort_pulses s =
     (let srt = sort_key event_key (timeline s)
      in if srt = [] then Inl ValueError
         else Inr (s\<lparr>event_times := map fst srt,
                     event_channel := map (fst \<circ> snd) srt,
                     events := map (snd \<circ> snd) srt\<rparr>))"

definition get_event_durations :: "pb_state \<Rightarrow> error + pb_state" where
  "get_event_durations s =
     (let ts = event_times s;
          ds = map (\<lambda>(i, j). num_sub i j) (zip (tl ts) (butlast ts))
      in case total_duration s of
           Ignore \<Rightarrow> Inr (s\<lparr>event_durations := ds\<rparr>)
         | Total T \<Rightarrow>
             if ts = [] then Inl IndexError
             else if num_val (last ts) \<noteq> num_val T
             then Inr (s\<lparr>event_durations := ds @ [num_sub T (last ts)]\<rparr>)
             else Inr (s\<lparr>event_durations := ds\<rparr>))"

definition event_to_sign :: "string \<Rightarrow> error + int" where
  "event_to_sign event =
     (if event = ''up'' then Inr 1
      else if event = ''down'' then Inr (- 1)
      else Inl ValueError)"

text \<open>The loop of \<open>_compute_channel_bits\<close> over the indices of \<open>event_durations\<close>.\<close>

fun bits_loop :: "nat list \<Rightarrow> pb_state \<Rightarrow> error + pb_state" where
  "bits_loop [] s = Inr s"
| "bits_loop (i # is) s =
     (let prev_val = (if channel_bits s \<noteq> [] then last (channel_bits s) else 0)
      in if length (event_channel s) \<le> i then Inl IndexError
         else (case channel_mapping s (event_channel s ! i) of
           None \<Rightarrow> Inl KeyError
         | Some k \<Rightarrow>
             if length (events s) \<le> i then Inl IndexError
             else (case event_to_sign (events s ! i) of
               Inl e \<Rightarrow> Inl e
             | Inr sg \<Rightarrow>
                 bits_loop is
                   (s\<lparr>channel_bits := channel_bits s @ [prev_val + 2 ^ k * sg]\<rparr>))))"

text \<open>\<open>list.pop(i)\<close> for an index already checked to be in range.\<close>

definition list_pop :: "nat \<Rightarrow> 'a list \<Rightarrow> 'a list" where
  "list_pop i xs = take i xs @ drop (Suc i) xs"

definition indices_to_pop :: "num list \<Rightarrow> nat list" where
  "indices_to_pop ds = map fst (filter (\<lambda>(idx, dur). num_val dur = 0) (enumerate 0 ds))"

text \<open>One round of the pruning loop: each list is popped under its own guard, and a
  failed guard only warns.\<close>

definition pop_step :: "nat \<Rightarrow> pb_state \<Rightarrow> pb_state" where
  "pop_step pop_index s =
     (let s1 = (if pop_index < length (event_durations s)
                then s\<lparr>event_durations := list_pop pop_index (event_durations s)\<rparr>
                else s\<lparr>warned := warned s @
                        [BadDurationsIndex pop_index (length (event_durations s))]\<rparr>)
      in if pop_index < length (channel_bits s1)
         then s1\<lparr>channel_bits := list_pop pop_index (channel_bits s1)\<rparr>
         else s1\<lparr>warned := warned s1 @
                    [BadBitsIndex pop_index (length (channel_bits s1))]\<rparr>)"

definition pop_uncessary_entries :: "pb_state \<Rightarrow> pb_state" where
  "pop_uncessary_entries s =
     fold pop_step (rev (sort (indices_to_pop (event_durations s)))) s"

definition compute_channel_bits :: "pb_state \<Rightarrow> error + pb_state" where
  "compute_channel_bits s =
     (case bits_loop [0..<length (event_durations s)] s of
        Inl e \<Rightarrow> Inl e
      | Inr s1 \<Rightarrow>
          if event_times s1 = [] then Inl IndexError
          else if num_val (event_times s1 ! 0) \<noteq> 0
          then Inr (pop_uncessary_entries
                 (s1\<lparr>channel_bits := 0 # channel_bits s1,
                     event_durations := event_times s1 ! 0 # event_durations s1\<rparr>))
          else Inr (pop_uncessary_entries s1))"

text \<open>The body of the loop of \<open>parse_pulse_sequence_file\<close> up to the store into
  \<open>ps\<close>, for a block already looked up.\<close>

definition compile_block :: "block \<Rightarrow> pb_state \<Rightarrow> error + pb_state" where
  "compile_block ps_block s =
     (case sort_pulses (parse_block ps_block s) of
        Inl e \<Rightarrow> Inl e
      | Inr s1 \<Rightarrow>
          (case get_event_durations s1 of
             Inl e \<Rightarrow> Inl e
           | Inr s2 \<Rightarrow> compute_channel_bits s2))"

fun parse_blocks :: "string list \<Rightarrow> pb_state \<Rightarrow> error + pb_state" where
  "parse_blocks [] s = Inr s"
| "parse_blocks (b # bs) s =
     (case blocks (yaml_sequence s) b of
        None \<Rightarrow> Inl KeyError
      | Some ps_block \<Rightarrow>
          (case compile_block ps_block s of
             Inl e \<Rightarrow> Inl e
           | Inr s3 \<Rightarrow>
               parse_blocks bs
                 (reset_attributes
                    (s3\<lparr>ps := (ps s3)(b \<mapsto> (channel_bits s3, event_durations s3))\<rparr>))))"

definition parse_pulse_sequence_file :: "pb_state \<Rightarrow> error + pb_state" where
  "parse_pulse_sequence_file s = parse_blocks (sequencing_order (yaml_sequence s)) s"

text \<open>\<open>xs * n\<close> on a Python list: \<open>n\<close> copies in a row, none when \<open>n \<le> 0\<close>.\<close>

definition list_times :: "'a list \<Rightarrow> int \<Rightarrow> 'a list" where
  "list_times xs n = concat (replicate (nat n) xs)"

fun compile_loop ::
  "(string \<times> int) list \<Rightarrow> pb_state \<Rightarrow> int list \<times> num list \<Rightarrow> error + (int list \<times> num list)"
where
  "compile_loop [] s acc = Inr acc"
| "compile_loop ((sequence_block, block_repeats) # rest) s (cb, bd) =
     (case ps s sequence_block of
        None \<Rightarrow> Inl KeyError
      | Some (bits, durs) \<Rightarrow>
          compile_loop rest s
            (cb @ list_times bits block_repeats, bd @ list_times durs block_repeats))"

definition compile :: "pb_state \<Rightarrow> error + (int list \<times> num list)" where
  "compile s =
     compile_loop
       (zip (sequencing_order (yaml_sequence s)) (sequencing_repeats (yaml_sequence s)))
       s ([], [])"

text \<open>The order in which \<open>sorted\<close> compares two events, written out: by the value of
  the time, then by channel name, then by event tag.\<close>

definition event_le :: "event \<Rightarrow> event \<Rightarrow> bool" where
  "event_le x y \<longleftrightarrow>
     num_val (fst x) < num_val (fst y) \<or>
     num_val (fst x) = num_val (fst y) \<and> (fst (snd x) < fst (snd y) \<or>
                          fst (snd x) = fst (snd y) \<and> snd (snd x) \<le> snd (snd y))"

text \<open>The tie-break in the specification's words, for comparison: a stable sort on the
  time alone, which keeps the channel-then-pulse enumeration order among equal times.\<close>

definition stable_time_order :: "pb_state \<Rightarrow> event list" where
  "stable_time_order s = sort_key (\<lambda>x. num_val (fst x)) (timeline s)"

text \<open>The sorted timeline of a result of \<open>_sort_pulses\<close>.\<close>

definition sorted_timeline :: "error + pb_state \<Rightarrow> event list option" where
  "sorted_timeline r = (case r of Inl _ \<Rightarrow> None | Inr s \<Rightarrow> Some (timeline s))"

text \<open>The event lists as \<open>__init__\<close> and \<open>_reset_attributes\<close> leave them.\<close>

definition fresh :: "pb_state \<Rightarrow> bool" where
  "fresh s \<longleftrightarrow>
     event_times s = [] \<and> event_channel s = [] \<and> events s = [] \<and> channel_bits s = []"

text \<open>A block, and a program, in which every start and duration is a Python \<open>int\<close>.\<close>

definition int_block :: "block \<Rightarrow> bool" where
  "int_block blk \<longleftrightarrow>
     (\<forall>cp\<in>set blk. \<forall>p\<in>set (snd cp). is_int (p_start p) \<and> is_int (p_duration p))"


subsection \<open>PulseSequence\<close>

text \<open>\<open>int(x)\<close> truncates towards zero; \<open>round(x)\<close> rounds to the nearest integer and
  a tie to the even one.\<close>

definition py_int :: "real \<Rightarrow> int" where
  "py_int x = (if 0 \<le> x then \<lfloor>x\<rfloor> else \<lceil>x\<rceil>)"

definition py_round :: "real \<Rightarrow> int" where
  "py_round x =
     (let f = \<lfloor>x\<rfloor>; d = x - of_int f
      in if d < 1 / 2 then f else if 1 / 2 < d then f + 1
         else if even f then f else f + 1)"

text \<open>\<open>np.isclose(a, b)\<close> with its default tolerances.\<close>

definition isclose :: "real \<Rightarrow> real \<Rightarrow> bool" where
  "isclose a b \<longleftrightarrow> \<bar>a - b\<bar> \<le> 1 / 10 ^ 8 + 1 / 10 ^ 5 * \<bar>b\<bar>"

definition linspace :: "real \<Rightarrow> real \<Rightarrow> nat \<Rightarrow> real list" where
  "linspace lo hi n =
     (if n = 1 then [lo]
      else map (\<lambda>i. lo + real i * ((hi - lo) / real (n - 1))) [0..<n])"

text \<open>The tensor \<open>pulses\<close> has shape \<open>(numseqs, 7 * len(awg_sources), num_points)\<close>; it
  is a list of variants, each a list of rows, each a list of samples.\<close>

type_synonym tensor = "real list list list"

record seq_state =
  samp_rate :: real
  min_time :: real
  num_points :: nat
  time :: "real list"
  numseqs :: nat
  awg_sources :: "int list"
  pulses :: tensor
  sequencer :: "int list option"
  sequencernames :: "string list option"
  flag_channels :: "(string \<times> string list) list option"
  warning_counter :: nat

text \<open>\<open>__init__\<close>: \<open>1 / samprate\<close> raises on zero, and \<open>np.linspace\<close> and
  \<open>np.zeros\<close> raise \<open>ValueError\<close> on a negative size.\<close>

definition seq_init :: "int \<Rightarrow> real \<Rightarrow> int list \<Rightarrow> real \<Rightarrow> error + seq_state" where
  "seq_init nseqs dur sources samprate =
     (if samprate = 0 then Inl ZeroDivisionError
      else let np = py_int (samprate * dur * (1 / 10 ^ 6))
           in if np < 0 \<or> nseqs < 0 then Inl ValueError
              else Inr \<lparr>samp_rate = samprate, min_time = 1 / samprate,
                        num_points = nat np, time = linspace 0 dur (nat np),
                        numseqs = nat nseqs, awg_sources = sources,
                        pulses = replicate (nat nseqs)
                                   (replicate (7 * length sources) (replicate (nat np) 0)),
                        sequencer = None, sequencernames = None, flag_channels = None,
                        warning_counter = 0\<rparr>)"

definition time_to_index :: "real \<Rightarrow> seq_state \<Rightarrow> int \<times> seq_state" where
  "time_to_index t s =
     (let points = samp_rate s * t * (1 / 10 ^ 6)
      in if \<not> isclose points (of_int (py_round points))
         then (py_round points, s\<lparr>warning_counter := warning_counter s + 1\<rparr>)
         else (py_round points, s))"

text \<open>An integer index into an axis of length \<open>n\<close>: negative indices count from the
  end, and an index outside \<open>[-n, n)\<close> raises \<open>IndexError\<close>.\<close>

definition np_index :: "nat \<Rightarrow> int \<Rightarrow> nat option" where
  "np_index n i =
     (if 0 \<le> i \<and> i < int n then Some (nat i)
      else if i < 0 \<and> - int n \<le> i then Some (nat (int n + i))
      else None)"

text \<open>A slice bound on an axis of length \<open>n\<close> is clipped to \<open>[0, n]\<close>.\<close>

definition slice_bound :: "nat \<Rightarrow> int \<Rightarrow> nat" where
  "slice_bound n i = (if i < 0 then nat (max (int n + i) 0) else min (nat i) n)"

definition slice_range :: "nat \<Rightarrow> int \<Rightarrow> int \<Rightarrow> nat \<times> nat" where
  "slice_range n lo hi =
     (let a = slice_bound n lo; b = slice_bound n hi in (a, max a b))"

definition py_slice :: "'a list \<Rightarrow> int \<Rightarrow> int \<Rightarrow> 'a list" where
  "py_slice xs lo hi = (let (a, b) = slice_range (length xs) lo hi in take (b - a) (drop a xs))"

text \<open>The right-hand side of the assignment is a scalar or a one-dimensional array.\<close>

datatype rhs = Scalar real | Array "real list"

definition scale :: "real \<Rightarrow> rhs \<Rightarrow> rhs" where
  "scale a v = (case v of Scalar x \<Rightarrow> Scalar (a * x) | Array xs \<Rightarrow> Array (map (\<lambda>x. a * x) xs))"

text \<open>\<open>row[lo:hi] = v\<close>: an array must have the length of the slice, or one element
  that is broadcast; otherwise numpy raises \<open>ValueError\<close>.\<close>

definition set_row_slice :: "real list \<Rightarrow> int \<Rightarrow> int \<Rightarrow> rhs \<Rightarrow> error + real list" where
  "set_row_slice row lo hi v =
     (let (a, b) = slice_range (length row) lo hi
      in case v of
           Scalar x \<Rightarrow> Inr (take a row @ replicate (b - a) x @ drop b row)
         | Array xs \<Rightarrow>
             if length xs = b - a then Inr (take a row @ xs @ drop b row)
             else if length xs = 1 then Inr (take a row @ replicate (b - a) (hd xs) @ drop b row)
             else Inl ValueError)"

text \<open>\<open>numseq\<close> is an integer, or a pair that \<open>numseq[0] : numseq[1]\<close> slices.\<close>

datatype numseq = Single int | Pair int int

text \<open>\<open>self.pulses[n, channel, lo:hi] = v\<close> for one variant \<open>n\<close>.\<close>

definition set_single :: "seq_state \<Rightarrow> int \<Rightarrow> int \<Rightarrow> int \<Rightarrow> int \<Rightarrow> rhs \<Rightarrow> error + tensor" where
  "set_single s n channel lo hi v =
     (case np_index (numseqs s) n of
        None \<Rightarrow> Inl IndexError
      | Some vi \<Rightarrow>
          (case np_index (7 * length (awg_sources s)) channel of
             None \<Rightarrow> Inl IndexError
           | Some c \<Rightarrow>
               (case set_row_slice (pulses s ! vi ! c) lo hi v of
                  Inl e \<Rightarrow> Inl e
                | Inr row \<Rightarrow> Inr ((pulses s)[vi := (pulses s ! vi)[c := row]]))))"

text \<open>\<open>self.pulses[n0:n1, channel, lo:hi] = v\<close>: the same row slice in every variant
  of the range. The row index is checked, and \<open>v\<close> must fit a row slice of
  \<open>num_points\<close> samples, also when the range of variants is empty.\<close>

definition set_range :: "seq_state \<Rightarrow> int \<Rightarrow> int \<Rightarrow> int \<Rightarrow> int \<Rightarrow> int \<Rightarrow> rhs \<Rightarrow> error + tensor" where
  "set_range s n0 n1 channel lo hi v =
     (case np_index (7 * length (awg_sources s)) channel of
        None \<Rightarrow> Inl IndexError
      | Some c \<Rightarrow>
          (case set_row_slice (replicate (num_points s) 0) lo hi v of
             Inl e \<Rightarrow> Inl e
           | Inr _ \<Rightarrow>
               (let (a, b) = slice_range (numseqs s) n0 n1
                in Inr (map (\<lambda>(vi, var).
                         if a \<le> vi \<and> vi < b
                         then (case set_row_slice (var ! c) lo hi v of
                                 Inl _ \<Rightarrow> var | Inr row \<Rightarrow> var[c := row])
                         else var)
                       (enumerate 0 (pulses s))))))"

text \<open>The cosine factor \<open>fr\<close>: an array over the slice of the time axis, or the
  scalar 1 when no frequency is given.\<close>

definition fr_of :: "seq_state \<Rightarrow> (real \<times> real) option \<Rightarrow> int \<Rightarrow> int \<Rightarrow> rhs" where
  "fr_of s freq lo hi =
     (case freq of
        None \<Rightarrow> Scalar 1
      | Some (frequency, phase) \<Rightarrow>
          Array (map (\<lambda>t. cos (2 * pi * (frequency * (1 / 10 ^ 6)) * t + phase))
                   (py_slice (time s) lo hi)))"

text \<open>\<open>add_pulse\<close>. With an integer \<open>numseq\<close> the slicing attempt raises \<open>TypeError\<close>
  and the handler writes to the single variant; with a pair, a failure of the slicing
  attempt is followed by the handler's index-array write, which fails as well.\<close>

definition quantize :: "string \<Rightarrow> real \<Rightarrow> real \<Rightarrow> seq_state \<Rightarrow> real \<times> real \<times> seq_state" where
  "quantize inputtype start0 duration0 s =
     (if inputtype = ''time''
      then (let (i, s1) = time_to_index start0 s;
                (j, s2) = time_to_index duration0 s1
            in (real_of_int i, real_of_int j, s2))
      else (start0, duration0, s))"

definition add_pulse ::
  "numseq \<Rightarrow> real \<Rightarrow> real \<Rightarrow> int \<Rightarrow> string \<Rightarrow> real \<Rightarrow> (real \<times> real) option \<Rightarrow> seq_state
     \<Rightarrow> error + seq_state"
where
  "add_pulse nsq start0 duration0 channel inputtype amplitude freq s =
     (let (start1, duration1, s2) = quantize inputtype start0 duration0 s;
          lo = py_int start1;
          hi = py_int (start1 + duration1);
          v = scale amplitude (fr_of s2 freq lo hi)
      in case nsq of
           Single n \<Rightarrow>
             (case set_single s2 n channel lo hi v of
                Inl e \<Rightarrow> Inl e
              | Inr t \<Rightarrow> Inr (s2\<lparr>pulses := t\<rparr>))
         | Pair n0 n1 \<Rightarrow>
             (case set_range s2 n0 n1 channel lo hi v of
                Inr t \<Rightarrow> Inr (s2\<lparr>pulses := t\<rparr>)
              | Inl _ \<Rightarrow>
                  (case (np_index (numseqs s2) n0, np_index (numseqs s2) n1,
                         np_index (7 * length (awg_sources s2)) channel) of
                     (Some _, Some _, Some _) \<Rightarrow> Inl ValueError
                   | _ \<Rightarrow> Inl IndexError)))"

text \<open>The quantized start and end index of a pulse, as \<open>add_pulse\<close> computes them.\<close>

definition index_range :: "string \<Rightarrow> real \<Rightarrow> real \<Rightarrow> seq_state \<Rightarrow> int \<times> int" where
  "index_range inputtype start0 duration0 s =
     (let (start1, duration1, s2) = quantize inputtype start0 duration0 s
      in (py_int start1, py_int (start1 + duration1)))"

text \<open>The value of a pulse at sample \<open>i\<close>: the flat amplitude, or the amplitude times
  the cosine at the time of the sample.\<close>

definition envelope :: "seq_state \<Rightarrow> real \<Rightarrow> (real \<times> real) option \<Rightarrow> nat \<Rightarrow> real" where
  "envelope s amplitude freq i =
     amplitude *
       (case freq of
          None \<Rightarrow> 1
        | Some (frequency, phase) \<Rightarrow>
            cos (2 * pi * (frequency * (1 / 10 ^ 6)) * (time s ! i) + phase))"

text \<open>The variants that \<open>numseq\<close> addresses, and the row that \<open>channel\<close> addresses;
  \<open>None\<close> where numpy raises \<open>IndexError\<close>.\<close>

definition variants_of :: "seq_state \<Rightarrow> numseq \<Rightarrow> nat list option" where
  "variants_of s nsq =
     (case nsq of
        Single n \<Rightarrow> map_option (\<lambda>v. [v]) (np_index (numseqs s) n)
      | Pair n0 n1 \<Rightarrow> (let (a, b) = slice_range (numseqs s) n0 n1 in Some [a..<b]))"

definition row_of :: "seq_state \<Rightarrow> int \<Rightarrow> nat option" where
  "row_of s channel = np_index (7 * length (awg_sources s)) channel"

text \<open>The shape that \<open>__init__\<close> gives the tensor and the time axis.\<close>

definition wf_seq :: "seq_state \<Rightarrow> bool" where
  "wf_seq s \<longleftrightarrow>
     length (pulses s) = numseqs s \<and>
     (\<forall>var\<in>set (pulses s).
        length var = 7 * length (awg_sources s) \<and>
        (\<forall>row\<in>set var. length row = num_points s)) \<and>
     length (time s) = num_points s"

text \<open>\<open>make\<close>: the six marker rows after the analog row of a source are packed into
  one \<open>uint8\<close> per sample, which the assignment into \<open>final\<close> converts to a float.\<close>

definition packed_row :: "real list list \<Rightarrow> nat \<Rightarrow> 8 word list" where
  "packed_row pv base =
     fold (\<lambda>bit_offset packed.
             map (\<lambda>(p, m). p OR push_bit (7 - bit_offset) (if 0 < m then 1 else 0))
               (zip packed (pv ! (base + 1 + bit_offset))))
       [0..<6] (replicate (length (pv ! 0)) 0)"

text \<open>The packed byte in the specification's words: marker row \<open>k\<close> (0 to 5)
  contributes bit \<open>7 - k\<close> when its value is positive.\<close>

definition marker_byte :: "(nat \<Rightarrow> real) \<Rightarrow> nat" where
  "marker_byte m = sum_list (map (\<lambda>k. if 0 < m k then 2 ^ (7 - k) else 0) [0..<6])"

definition make_source :: "tensor \<Rightarrow> nat \<Rightarrow> tensor \<Rightarrow> tensor" where
  "make_source pls si final =
     map (\<lambda>(fv, pv).
            (let base = 7 * si
             in (fv[2 * si := pv ! base])
                  [2 * si + 1 := map (\<lambda>w. real (unat w)) (packed_row pv base)]))
       (zip final pls)"

definition make_final :: "seq_state \<Rightarrow> tensor" where
  "make_final s =
     fold (make_source (pulses s)) [0..<length (awg_sources s)]
       (replicate (numseqs s)
          (replicate (2 * length (awg_sources s)) (replicate (num_points s) 0)))"

text \<open>The archive that \<open>np.savez\<close> writes, without the SHA-1 fingerprint and the
  constant \<open>properties\<close> entry.\<close>

record npz =
  arr_final :: tensor
  arr_sequencer :: "int list option"
  arr_sequencernames :: "string list option"
  arr_flag_channels :: "(string \<times> string list) list option"

text \<open>The files that \<open>PulseSequenceYaml\<close> reads and writes: the specification, its
  \<open>.aux\<close> sidecar and the archive written by \<open>make\<close>. A file holds the document that
  \<open>yaml.safe_load\<close> reads from it (\<open>None\<close>: the file does not exist); dumping a
  document and loading it again is taken to give the document back, and \<open>==\<close> on
  documents is equality. The records of that class are declared here, ahead of
  \<open>make\<close>, since every record brings a constant \<open>make\<close> of its own.\<close>

record files =
  yaml_file :: "yaml_doc option"
  aux_file :: "yaml_doc option"
  npz_file :: "npz option"

text \<open>A channel is mapped to a row of the tensor, or to a flag name.\<close>

datatype target = Row int | Flag string

record yaml_obj =
  y_channel_mapping :: "string \<rightharpoonup> target"
  y_awg_sources :: "int list"
  y_samp_rate :: real

definition make :: "seq_state \<Rightarrow> npz" where
  "make s =
     \<lparr>arr_final = make_final s, arr_sequencer = sequencer s,
      arr_sequencernames = sequencernames s, arr_flag_channels = flag_channels s\<rparr>"

subsection \<open>PulseSequenceYaml\<close>

definition sequence_didnt_change :: "files \<Rightarrow> error + (bool \<times> files)" where
  "sequence_didnt_change fs =
     (case yaml_file fs of
        None \<Rightarrow> Inl FileNotFoundError
      | Some sequence_instructions \<Rightarrow>
          (case aux_file fs of
             Some previous_sequence_instructions \<Rightarrow>
               Inr (previous_sequence_instructions = sequence_instructions,
                    fs\<lparr>aux_file := Some sequence_instructions\<rparr>)
           | None \<Rightarrow> Inr (False, fs\<lparr>aux_file := Some sequence_instructions\<rparr>)))"

fun add_pulses :: "nat \<Rightarrow> int \<Rightarrow> pulse list \<Rightarrow> seq_state \<Rightarrow> error + seq_state" where
  "add_pulses i mapped_channel [] seq = Inr seq"
| "add_pulses i mapped_channel (p # rest) seq =
     (case (p_amplitude p, p_frequency p, p_phase p) of
        (Some a, Some f, Some ph) \<Rightarrow>
          (case add_pulse (Single (int i)) (num_val (p_start p)) (num_val (p_duration p))
                  mapped_channel
                  ''time'' a (Some (f, ph)) seq of
             Inl e \<Rightarrow> Inl e
           | Inr seq' \<Rightarrow> add_pulses i mapped_channel rest seq')
      | _ \<Rightarrow> Inl KeyError)"

fun channels_loop ::
  "(string \<rightharpoonup> target) \<Rightarrow> nat \<Rightarrow> block \<Rightarrow> seq_state \<times> string list
     \<Rightarrow> error + (seq_state \<times> string list)"
where
  "channels_loop cm i [] acc = Inr acc"
| "channels_loop cm i ((channel, channel_pulses) # rest) (seq, flags) =
     (case cm channel of
        None \<Rightarrow> Inl KeyError
      | Some (Flag f) \<Rightarrow> channels_loop cm i rest (seq, flags @ [f])
      | Some (Row mapped_channel) \<Rightarrow>
          (case add_pulses i mapped_channel channel_pulses seq of
             Inl e \<Rightarrow> Inl e
           | Inr seq' \<Rightarrow> channels_loop cm i rest (seq', flags)))"

fun blocks_loop ::
  "(string \<rightharpoonup> target) \<Rightarrow> yaml_doc \<Rightarrow> (nat \<times> string) list
     \<Rightarrow> seq_state \<times> (string \<times> string list) list
     \<Rightarrow> error + (seq_state \<times> (string \<times> string list) list)"
where
  "blocks_loop cm doc [] acc = Inr acc"
| "blocks_loop cm doc ((i, b) # rest) (seq, flag_chs) =
     (case blocks doc b of
        None \<Rightarrow> Inl KeyError
      | Some blk \<Rightarrow>
          (case channels_loop cm i blk (seq, []) of
             Inl e \<Rightarrow> Inl e
           | Inr (seq', flags) \<Rightarrow> blocks_loop cm doc rest (seq', flag_chs @ [(b, flags)])))"

text \<open>\<open>sorted(set(sequence_order))\<close>: the distinct block names in ascending order.\<close>

definition sorted_pulse_blocks :: "string list \<Rightarrow> string list" where
  "sorted_pulse_blocks sequence_order = sort (remdups sequence_order)"

definition translate_yaml_to_numeric_instructions :: "yaml_obj \<Rightarrow> files \<Rightarrow> error + files" where
  "translate_yaml_to_numeric_instructions y fs =
     (case sequence_didnt_change fs of
        Inl e \<Rightarrow> Inl e
      | Inr (unchanged, fs1) \<Rightarrow>
          if unchanged then Inr fs1
          else (case yaml_file fs1 of
             None \<Rightarrow> Inl FileNotFoundError
           | Some doc \<Rightarrow>
               (case doc_total_duration doc of
                  Ignore \<Rightarrow> Inl ValueError
                | Total dur \<Rightarrow>
                    (let names = sorted_pulse_blocks (sequencing_order doc)
                     in case seq_init (int (length names)) (num_val dur) (y_awg_sources y)
                               (y_samp_rate y) of
                          Inl e \<Rightarrow> Inl e
                        | Inr seq \<Rightarrow>
                            (case blocks_loop (y_channel_mapping y) doc (enumerate 0 names)
                                    (seq, []) of
                               Inl e \<Rightarrow> Inl e
                             | Inr (seq1, flag_chs) \<Rightarrow>
                                 Inr (fs1\<lparr>npz_file := Some (make
                                   (seq1\<lparr>flag_channels := Some flag_chs,
                                         sequencer := Some (sequencing_repeats doc),
                                         sequencernames := Some (sequencing_order doc)\<rparr>))\<rparr>))))))"

text \<open>The number of variants of the tensor that a run has written.\<close>

definition analog_variants :: "error + files \<Rightarrow> nat option" where
  "analog_variants r =
     (case r of
        Inl _ \<Rightarrow> None
      | Inr fs \<Rightarrow> map_option (\<lambda>z. length (arr_final z)) (npz_file fs))"

text \<open>The expanded length in the specification's words: the sum over the program of
  repeat count times native length.\<close>

definition expanded_count :: "(string \<Rightarrow> nat) \<Rightarrow> yaml_doc \<Rightarrow> int" where
  "expanded_count native doc =
     (\<Sum>(b, r)\<leftarrow>zip (sequencing_order doc) (sequencing_repeats doc). r * int (native b))"

subsection \<open>Example inputs\<close>

definition unit_pulse :: "num \<Rightarrow> num \<Rightarrow> pulse" where
  "unit_pulse st du =
     \<lparr>p_start = st, p_duration = du, p_amplitude = Some 1, p_frequency = Some 0,
      p_phase = Some 0\<rparr>"

definition empty_doc :: yaml_doc where
  "empty_doc =
     \<lparr>sequencing_order = [], sequencing_repeats = [], doc_total_duration = Ignore,
      blocks = Map.empty\<rparr>"

text \<open>Channel \<open>b\<close> is listed before channel \<open>a\<close>; both switch on at 0 and off at 1.\<close>

definition s_ba :: pb_state where
  "s_ba = parse_block [(''b'', [unit_pulse (PyInt 0) (PyInt 1)]),
                       (''a'', [unit_pulse (PyInt 0) (PyInt 1)])]
            (pb_init Map.empty empty_doc)"

text \<open>Two channels with overlapping pulses, and a total duration of 10.\<close>

definition two_channel_doc :: yaml_doc where
  "two_channel_doc =
     \<lparr>sequencing_order = [''B''], sequencing_repeats = [2],
      doc_total_duration = Total (PyInt 10),
      blocks = [''B'' \<mapsto> [(''a'', [unit_pulse (PyInt 1) (PyInt 2)]),
                          (''b'', [unit_pulse (PyInt 2) (PyInt 3)])]]\<rparr>"

text \<open>A block that ends at 5, after its total duration of 4.\<close>

definition late_doc :: yaml_doc where
  "late_doc =
     \<lparr>sequencing_order = [''A''], sequencing_repeats = [1],
      doc_total_duration = Total (PyInt 4),
      blocks = [''A'' \<mapsto> [(''ch0'', [unit_pulse (PyInt 2) (PyInt 3)])]]\<rparr>"

text \<open>The floats that the decimals \<open>0.1\<close> and \<open>0.9\<close> are loaded as, and a block whose
  pulse starts at \<open>0.1\<close> and lasts \<open>0.1\<close>, with a total duration of \<open>0.9\<close>.\<close>

definition f01 :: num where
  "f01 = PyFloat 3602879701896397 (- 55)"



text \<open>A state in which the bit-field list is shorter than the duration list.\<close>

definition s_mismatch :: pb_state where
  "s_mismatch =
     (pb_init Map.empty empty_doc)
       \<lparr>event_durations := [PyInt 0, PyInt 1, PyInt 0], channel_bits := [5]\<rparr>"

definition s_lockstep :: pb_state where
  "s_lockstep =
     (pb_init Map.empty empty_doc)
       \<lparr>event_durations := [PyInt 0, PyFloat 1 0, PyFloat 0 0], channel_bits := [5, 6, 7]\<rparr>"

text \<open>One variant, one source, four samples at one sample per microsecond: the state
  that \<open>PulseSequence(1, 4, [1], samprate=1e6)\<close> starts in.\<close>

definition seq4 :: seq_state where
  "seq4 =
     \<lparr>samp_rate = 1000000, min_time = 1 / 1000000, num_points = 4,
      time = [0, 4 / 3, 8 / 3, 4], numseqs = 1, awg_sources = [1],
      pulses = [[[0, 0, 0, 0], [0, 0, 0, 0], [0, 0, 0, 0], [0, 0, 0, 0],
                 [0, 0, 0, 0], [0, 0, 0, 0], [0, 0, 0, 0]]],
      sequencer = None, sequencernames = None, flag_channels = None,
      warning_counter = 0\<rparr>"

text \<open>One sample; the six marker rows of the only source hold 0, 1, 0, 1, 0, 1.\<close>

definition seq_markers :: seq_state where
  "seq_markers =
     \<lparr>samp_rate = 1000000, min_time = 1 / 1000000, num_points = 1,
      time = [0], numseqs = 1, awg_sources = [1],
      pulses = [[[0], [0], [1], [0], [1], [0], [1]]],
      sequencer = None, sequencernames = None, flag_channels = None,
      warning_counter = 0\<rparr>"

text \<open>One block with no channels, to be played three times.\<close>

definition triple_doc :: yaml_doc where
  "triple_doc =
     \<lparr>sequencing_order = [''A''], sequencing_repeats = [3],
      doc_total_duration = Total (PyInt 1), blocks = [''A'' \<mapsto> []]\<rparr>"

definition triple_obj :: yaml_obj where
  "triple_obj = \<lparr>y_channel_mapping = Map.empty, y_awg_sources = [1], y_samp_rate = 1000000\<rparr>"

definition triple_files :: files where
  "triple_files = \<lparr>yaml_file = Some triple_doc, aux_file = None, npz_file = None\<rparr>"

section \<open>Properties of the digital event compiler\<close>

lemmas block_defs =
  compile_block_def parse_block_def parse_channel_def append_event_def
  sort_pulses_def timeline_def event_key_def get_event_durations_def compute_channel_bits_def
  event_to_sign_def pop_uncessary_entries_def indices_to_pop_def pop_step_def list_pop_def

lemmas num_defs =
  num_add_def num_sub_def float_add_def to_float_def round53_def round_half_even_def
  nbits.simps normalize_float.simps num_val_def

text \<open>The arithmetic on a few values: \<open>0.1 + 0.2\<close> is the float
  \<open>0.30000000000000004\<close>, \<open>0.3\<close> minus that sum is \<open>- 2 ^ - 54\<close>, an integer added to a
  float is converted first, and two integers stay integers.\<close>

lemma float_arith_examples:
  "num_add f01 (PyFloat 3602879701896397 (- 54)) = PyFloat 1351079888211149 (- 52)"
  "num_sub (PyFloat 5404319552844595 (- 54)) (PyFloat 1351079888211149 (- 52)) =
     PyFloat (- 1) (- 54)"
  "num_add (PyInt 1) f01 = PyFloat 2476979795053773 (- 51)"
  "num_add (PyInt 2) (PyInt 3) = PyInt 5"
  by (simp_all add: f01_def num_defs Let_def)

text \<open>
  C1. A program whose only block has a single channel \<open>c\<close> with exactly one pulse,
  \<open>start = 2\<close> and \<open>duration = 3\<close>, compiled with \<open>total_duration = 10\<close>, each of the
  three numbers written as an integer or as a float: \<open>parse_pulse_sequence_file\<close>
  succeeds and stores for the block the bit-fields \<open>[0, 2 ^ k, 0]\<close> with durations of
  the values \<open>[2, 3, 5]\<close>, where \<open>k\<close> is the index that \<open>c\<close> is mapped to: the pairs
  \<open>(0, 2)\<close>, \<open>(2 ^ k, 3)\<close>, \<open>(0, 5)\<close>.
\<close>

theorem single_pulse_block:
  assumes "sequencing_order doc = [b]"
    and "blocks doc b = Some [(c, [p])]"
    and "p_start p = PyInt 2 \<or> p_start p = PyFloat 1 1"
    and "p_duration p = PyInt 3 \<or> p_duration p = PyFloat 3 0"
    and "doc_total_duration doc = Total (PyInt 10) \<or>
         doc_total_duration doc = Total (PyFloat 5 1)"
    and "cm c = Some k"
  shows "\<exists>s' durs. parse_pulse_sequence_file (pb_init cm doc) = Inr s' \<and>
           ps s' b = Some ([0, 2 ^ k, 0], durs) \<and> map num_val durs = [2, 3, 5]"
  using assms
  by (elim disjE)
     (simp_all add: parse_pulse_sequence_file_def pb_init_def block_defs reset_attributes_def
      num_defs Let_def enumerate_eq_zip upt_rec)

theorem single_pulse_block_witness:
  "\<exists>s' durs. parse_pulse_sequence_file
          (pb_init [''laser'' \<mapsto> 3]
             \<lparr>sequencing_order = [''init''], sequencing_repeats = [1],
              doc_total_duration = Total (PyInt 10),
              blocks = [''init'' \<mapsto> [(''laser'',
                 [unit_pulse (PyInt 2) (PyInt 3)])]]\<rparr>) = Inr s' \<and>
        ps s' ''init'' = Some ([0, 8, 0], durs) \<and> map num_val durs = [2, 3, 5]"
  using single_pulse_block [of "\<lparr>sequencing_order = [''init''], sequencing_repeats = [1],
              doc_total_duration = Total (PyInt 10),
              blocks = [''init'' \<mapsto> [(''laser'',
                 [unit_pulse (PyInt 2) (PyInt 3)])]]\<rparr>" "''init''" "''laser''"
              "unit_pulse (PyInt 2) (PyInt 3)" "[''laser'' \<mapsto> 3]" 3]
  by (simp add: unit_pulse_def)

text \<open>
  C10. There is a program with a numeric \<open>total_duration\<close> whose block ends after it:
  the total is 4 and the only pulse, from 2 for 3, stops at 5. The block compiles, and
  the lists stored for it are the bit-fields \<open>[0, 1, 0]\<close> with the durations
  \<open>[2, 3, - 1]\<close>: the last one is the synthesized trailing segment \<open>4 - 5\<close>, strictly
  negative, and pruning has left it in place, since it is not zero.
\<close>

theorem negative_trailing_segment:
  "parse_pulse_sequence_file (pb_init [''ch0'' \<mapsto> 0] late_doc) =
     Inr ((pb_init [''ch0'' \<mapsto> 0] late_doc)
            \<lparr>ps := [''A'' \<mapsto> ([0, 1, 0], [PyInt 2, PyInt 3, PyInt (- 1)])]\<rparr>) \<and>
   doc_total_duration late_doc = Total (PyInt 4) \<and>
   blocks late_doc ''A'' = Some [(''ch0'', [unit_pulse (PyInt 2) (PyInt 3)])] \<and>
   num_val (PyInt 4) < num_val (num_add (PyInt 2) (PyInt 3)) \<and>
   num_sub (PyInt 4) (num_add (PyInt 2) (PyInt 3)) = PyInt (- 1) \<and>
   num_val (PyInt (- 1)) < 0"
  by (simp add: parse_pulse_sequence_file_def pb_init_def block_defs reset_attributes_def
      late_doc_def unit_pulse_def num_defs Let_def enumerate_eq_zip upt_rec)

subsection \<open>The order of simultaneous events\<close>

lemma unzip3: "zip (map fst xs) (zip (map (fst \<circ> snd) xs) (map (snd \<circ> snd) xs)) = xs"
  by (induction xs) auto

lemma event_le_iff: "event_le x y \<longleftrightarrow> event_key x \<le> event_key y"
  by (cases x; cases y) (auto simp: event_le_def event_key_def)

lemma timeline_sort_pulses:
  "sort_pulses s = Inr s' \<Longrightarrow> timeline s' = sort_key event_key (timeline s)"
  by (auto simp: sort_pulses_def Let_def timeline_def unzip3 split: if_splits)

text \<open>
  C3, as stated, fails: with channel \<open>b\<close> enumerated before channel \<open>a\<close> and both
  switching at the same times, \<open>_sort_pulses\<close> puts the events of \<open>a\<close> first, where
  a stable sort on the time keeps those of \<open>b\<close> first.
\<close>

theorem tie_break_counterexample:
  "sorted_timeline (sort_pulses s_ba) =
     Some [(PyInt 0, ''a'', ''up''), (PyInt 0, ''b'', ''up''),
           (PyInt 1, ''a'', ''down''), (PyInt 1, ''b'', ''down'')]
   \<and> stable_time_order s_ba =
     [(PyInt 0, ''b'', ''up''), (PyInt 0, ''a'', ''up''),
      (PyInt 1, ''b'', ''down''), (PyInt 1, ''a'', ''down'')]"
  by (simp add: s_ba_def sorted_timeline_def stable_time_order_def pb_init_def
      parse_block_def parse_channel_def append_event_def sort_pulses_def timeline_def
      event_key_def unit_pulse_def num_defs)

text \<open>
  C3, amended. \<open>_sort_pulses\<close> sorts the merged events of a block as whole
  \<open>(time, channel, event)\<close> triples: the result is a rearrangement of the events that
  ascends in time, events with equal times are ordered by channel name, and events
  with equal time and channel by event tag, \<open>"down"\<close> before \<open>"up"\<close>. Only events that
  agree in time, channel and tag keep their enumeration order.
\<close>

theorem sort_pulses_order:
  assumes "sort_pulses s = Inr s'"
  shows "sorted_wrt event_le (timeline s') \<and> mset (timeline s') = mset (timeline s) \<and>
         ''down'' < ''up'' \<and>
         (\<forall>k. filter (\<lambda>x. event_key x = k) (timeline s') =
              filter (\<lambda>x. event_key x = k) (timeline s))"
proof -
  have "sorted (map event_key (sort_key event_key (timeline s)))" by simp
  then have "sorted_wrt event_le (sort_key event_key (timeline s))"
    by (simp add: sorted_map event_le_iff [abs_def])
  with timeline_sort_pulses [OF assms] show ?thesis by (simp add: sort_key_stable)
qed

theorem sort_pulses_order_witness:
  "sort_pulses s_ba =
     Inr (s_ba\<lparr>event_times := [PyInt 0, PyInt 0, PyInt 1, PyInt 1],
               event_channel := [''a'', ''b'', ''a'', ''b''],
               events := [''up'', ''up'', ''down'', ''down'']\<rparr>) \<and>
   sorted_wrt event_le
     [(PyInt 0, ''a'', ''up''), (PyInt 0, ''b'', ''up''),
      (PyInt 1, ''a'', ''down''), (PyInt 1, ''b'', ''down'')]"
proof -
  have h: "sort_pulses s_ba =
     Inr (s_ba\<lparr>event_times := [PyInt 0, PyInt 0, PyInt 1, PyInt 1],
               event_channel := [''a'', ''b'', ''a'', ''b''],
               events := [''up'', ''up'', ''down'', ''down'']\<rparr>)"
    by (simp add: s_ba_def pb_init_def parse_block_def parse_channel_def append_event_def
        sort_pulses_def timeline_def event_key_def unit_pulse_def num_defs)
  show ?thesis using h sort_pulses_order [OF h] by (simp add: timeline_def)
qed

subsection \<open>Zero-duration pruning\<close>

text \<open>Popping the zero-duration indices in descending order removes exactly those
  positions; \<open>nths xs A\<close> is the sublist of \<open>xs\<close> at the indices in \<open>A\<close>.\<close>

lemma nths_cong_index:
  "(\<And>i. i < length xs \<Longrightarrow> i \<in> A \<longleftrightarrow> i \<in> B) \<Longrightarrow> nths xs A = nths xs B"
  unfolding nths_def
  by (rule arg_cong [where f = "map fst"], rule filter_cong) (auto simp: set_zip)

lemma nths_list_pop:
  assumes "i < length xs" and "\<forall>j\<in>set js. j < i"
  shows "nths (list_pop i xs) (- set js) = nths xs (- set (js @ [i]))"
proof -
  have xs: "xs = take i xs @ xs ! i # drop (Suc i) xs"
    using assms(1) by (simp add: id_take_nth_drop)
  have l: "length (take i xs) = i" using assms(1) by simp
  have "nths xs (- set (js @ [i])) =
        nths (take i xs @ xs ! i # drop (Suc i) xs) (- set (js @ [i]))"
    using xs by simp
  also have "\<dots> = nths (take i xs) (- set (js @ [i])) @ 
       nths (xs ! i # drop (Suc i) xs) {j. j + i \<in> - set (js @ [i])}"
    by (simp only: nths_append l)
  also have "nths (xs ! i # drop (Suc i) xs) {j. j + i \<in> - set (js @ [i])} = drop (Suc i) xs"
    using assms(2) by (auto simp: nths_Cons intro!: nths_all)
  also have "nths (take i xs) (- set (js @ [i])) = nths (take i xs) (- set js)"
    by (rule nths_cong_index) auto
  finally have A: "nths xs (- set (js @ [i])) = nths (take i xs) (- set js) @ drop (Suc i) xs" .
  have "nths (list_pop i xs) (- set js) =
        nths (take i xs) (- set js) @ nths (drop (Suc i) xs) {j. j + i \<in> - set js}"
    by (simp only: list_pop_def nths_append l)
  also have "nths (drop (Suc i) xs) {j. j + i \<in> - set js} = drop (Suc i) xs"
    using assms(2) by (auto intro!: nths_all)
  finally show ?thesis using A by simp
qed

lemma nths_beyond:
  "length xs \<le> i \<Longrightarrow> nths xs (- set (js @ [i])) = nths xs (- set js)"
  by (rule nths_cong_index) auto

lemma fold_pop_step:
  assumes "sorted_wrt (<) js" and "\<forall>j\<in>set js. j < length (event_durations s)"
  shows "fold pop_step (rev js) s =
     s\<lparr>event_durations := nths (event_durations s) (- set js),
       channel_bits := nths (channel_bits s) (- set js),
       warned := warned s @
         map (\<lambda>j. BadBitsIndex j (length (channel_bits s)))
           (rev (filter (\<lambda>j. length (channel_bits s) \<le> j) js))\<rparr>"
  using assms
proof (induction js arbitrary: s rule: rev_induct)
  case Nil
  then show ?case by (simp add: nths_all)
next
  case (snoc i js)
  have lt: "\<forall>j\<in>set js. j < i" and srt: "sorted_wrt (<) js"
    using snoc.prems(1) by (auto simp: sorted_wrt_append)
  have i: "i < length (event_durations s)" using snoc.prems(2) by simp
  let ?s1 = "pop_step i s"
  have d1: "event_durations ?s1 = list_pop i (event_durations s)"
    using i by (simp add: pop_step_def Let_def)
  have len1: "\<forall>j\<in>set js. j < length (event_durations ?s1)"
    using lt i by (auto simp: d1 list_pop_def)
  note IH = snoc.IH [OF srt len1]
  show ?case
  proof (cases "i < length (channel_bits s)")
    case True
    then have s1: "?s1 = s\<lparr>event_durations := list_pop i (event_durations s),
        channel_bits := list_pop i (channel_bits s)\<rparr>"
      using i by (simp add: pop_step_def Let_def)
    have nof: "filter (\<lambda>j. length (channel_bits s) \<le> j) js = []"
      "filter (\<lambda>j. length (list_pop i (channel_bits s)) \<le> j) js = []"
      using lt True by (auto simp: filter_empty_conv list_pop_def)
    have "fold pop_step (rev (js @ [i])) s = fold pop_step (rev js) ?s1" by simp
    also note IH
    finally show ?thesis
      using True i lt
      by (simp add: s1 nof nths_list_pop del: set_append)
  next
    case False
    then have s1: "?s1 = s\<lparr>event_durations := list_pop i (event_durations s),
        warned := warned s @ [BadBitsIndex i (length (channel_bits s))]\<rparr>"
      using i by (simp add: pop_step_def Let_def)
    have "fold pop_step (rev (js @ [i])) s = fold pop_step (rev js) ?s1" by simp
    also note IH
    finally show ?thesis
      using False i lt
      by (simp add: s1 nths_list_pop nths_beyond del: set_append)
  qed
qed

lemma set_indices_to_pop:
  "set (indices_to_pop ds) = {i. i < length ds \<and> num_val (ds ! i) = 0}"
  by (auto simp: indices_to_pop_def in_set_enumerate_eq image_iff)

lemma sorted_indices_to_pop: "sorted_wrt (<) (indices_to_pop ds)"
proof -
  have "sorted_wrt (<) (map fst (enumerate 0 ds))" by (simp add: map_fst_enumerate del: upt_Suc)
  then show ?thesis
    unfolding indices_to_pop_def sorted_wrt_map by (rule sorted_wrt_filter)
qed

lemma sort_indices_to_pop: "sort (indices_to_pop ds) = indices_to_pop ds"
  using sorted_indices_to_pop [of ds]
  by (intro sorted_sort_id) (simp add: strict_sorted_iff)

lemma nths_nonzero:
  "nths ds (- set (indices_to_pop ds)) = filter (\<lambda>d. num_val d \<noteq> 0) ds"
  unfolding filter_eq_nths set_indices_to_pop
  by (rule nths_cong_index) auto

lemma pop_uncessary_entries_eq:
  "pop_uncessary_entries s =
     s\<lparr>event_durations := filter (\<lambda>d. num_val d \<noteq> 0) (event_durations s),
       channel_bits := nths (channel_bits s) (- set (indices_to_pop (event_durations s))),
       warned := warned s @
         map (\<lambda>j. BadBitsIndex j (length (channel_bits s)))
           (rev (filter (\<lambda>j. length (channel_bits s) \<le> j)
              (indices_to_pop (event_durations s))))\<rparr>"
  unfolding pop_uncessary_entries_def sort_indices_to_pop
  by (subst fold_pop_step)
     (simp_all add: sorted_indices_to_pop nths_nonzero, simp add: set_indices_to_pop)

lemma sum_list_nonzero:
  "sum_list (map num_val (filter (\<lambda>d. num_val d \<noteq> 0) ds)) = sum_list (map num_val ds)"
  by (induction ds) auto

lemma nths_zip_eq:
  "length xs = length ys \<Longrightarrow> zip (nths xs A) (nths ys A) = nths (zip xs ys) A"
proof (induction xs ys arbitrary: A rule: list_induct2)
  case Nil
  then show ?case by simp
next
  case (Cons x xs y ys)
  then show ?case by (simp add: nths_Cons)
qed

lemma filter_zip_nonzero:
  "length bs = length ds \<Longrightarrow>
   nths (zip bs ds) (- set (indices_to_pop ds)) =
     filter (\<lambda>(b, d). num_val d \<noteq> 0) (zip bs ds)"
  unfolding filter_eq_nths set_indices_to_pop
  by (rule nths_cong_index) auto

subsection \<open>Compiling one block\<close>

lemma append_event_fields [simp]:
  "total_duration (append_event c p s) = total_duration s"
  "yaml_sequence (append_event c p s) = yaml_sequence s"
  "channel_mapping (append_event c p s) = channel_mapping s"
  "ps (append_event c p s) = ps s"
  "warned (append_event c p s) = warned s"
  "channel_bits (append_event c p s) = channel_bits s"
  by (simp_all add: append_event_def)

lemma parse_channel_fields [simp]:
  "total_duration (parse_channel c pls s) = total_duration s"
  "yaml_sequence (parse_channel c pls s) = yaml_sequence s"
  "channel_mapping (parse_channel c pls s) = channel_mapping s"
  "ps (parse_channel c pls s) = ps s"
  "warned (parse_channel c pls s) = warned s"
  "channel_bits (parse_channel c pls s) = channel_bits s"
  unfolding parse_channel_def by (induction pls arbitrary: s; simp)+

lemma parse_block_fields [simp]:
  "total_duration (parse_block blk s) = total_duration s"
  "yaml_sequence (parse_block blk s) = yaml_sequence s"
  "channel_mapping (parse_block blk s) = channel_mapping s"
  "ps (parse_block blk s) = ps s"
  "warned (parse_block blk s) = warned s"
  "channel_bits (parse_block blk s) = channel_bits s"
  unfolding parse_block_def by (induction blk arbitrary: s; simp add: split_def)+

lemma sort_pulses_fields:
  assumes "sort_pulses s = Inr s'"
  shows "total_duration s' = total_duration s" "yaml_sequence s' = yaml_sequence s"
    "channel_mapping s' = channel_mapping s" "ps s' = ps s" "warned s' = warned s"
    "channel_bits s' = channel_bits s" "event_times s' \<noteq> []"
    "set (event_times s') \<subseteq> set (event_times s)"
proof -
  let ?srt = "sort_key event_key (timeline s)"
  from assms have s': "s' = s\<lparr>event_times := map fst ?srt,
      event_channel := map (fst \<circ> snd) ?srt, events := map (snd \<circ> snd) ?srt\<rparr>"
    and ne: "?srt \<noteq> []"
    by (auto simp: sort_pulses_def Let_def split: if_splits)
  show "total_duration s' = total_duration s" "yaml_sequence s' = yaml_sequence s"
    "channel_mapping s' = channel_mapping s" "ps s' = ps s" "warned s' = warned s"
    "channel_bits s' = channel_bits s"
    by (simp_all add: s')
  show "event_times s' \<noteq> []" using ne by (simp add: s')
  have "set (map fst ?srt) = fst ` set (timeline s)" by simp
  also have "\<dots> \<subseteq> set (event_times s)"
    by (auto simp: timeline_def dest: set_zip_leftD)
  finally show "set (event_times s') \<subseteq> set (event_times s)" by (simp add: s')
qed

lemma get_event_durations_fields:
  assumes "get_event_durations s = Inr s'"
  shows "total_duration s' = total_duration s" "yaml_sequence s' = yaml_sequence s"
    "channel_mapping s' = channel_mapping s" "ps s' = ps s" "warned s' = warned s"
    "channel_bits s' = channel_bits s" "event_times s' = event_times s"
  using assms by (auto simp: get_event_durations_def Let_def split: total.splits if_splits)

text \<open>Integers are added and subtracted exactly.\<close>

lemma is_int_arith:
  assumes "is_int a" and "is_int b"
  shows "is_int (num_add a b)" "num_val (num_add a b) = num_val a + num_val b"
    "is_int (num_sub a b)" "num_val (num_sub a b) = num_val a - num_val b"
  using assms
  by (auto simp: is_int_def num_add_def num_sub_def num_val_def split: num.splits)

lemma sum_list_differences:
  "ts \<noteq> [] \<Longrightarrow>
   sum_list (map (\<lambda>(i, j). i - j) (zip (tl ts) (butlast ts))) = last ts - hd (ts :: real list)"
proof (induction ts rule: induct_list012)
  case (3 x y zs)
  then show ?case by simp
qed simp_all

lemma int_differences:
  assumes "\<forall>t\<in>set ts. is_int t"
  shows "\<forall>d\<in>set (map (\<lambda>(i, j). num_sub i j) (zip (tl ts) (butlast ts))). is_int d"
    and "ts \<noteq> [] \<Longrightarrow>
      sum_list (map num_val (map (\<lambda>(i, j). num_sub i j) (zip (tl ts) (butlast ts)))) =
      num_val (last ts) - num_val (hd ts)"
proof -
  have mem: "is_int i \<and> is_int j" if "(i, j) \<in> set (zip (tl ts) (butlast ts))" for i j
  proof -
    from that have "i \<in> set (tl ts)" "j \<in> set (butlast ts)"
      by (auto dest: set_zip_leftD set_zip_rightD)
    then have "i \<in> set ts" "j \<in> set ts"
      by (auto dest: list.set_sel(2) [rotated] in_set_butlastD)
    with assms show ?thesis by blast
  qed
  show "\<forall>d\<in>set (map (\<lambda>(i, j). num_sub i j) (zip (tl ts) (butlast ts))). is_int d"
    using mem by (auto simp: is_int_arith)
  show "sum_list (map num_val (map (\<lambda>(i, j). num_sub i j) (zip (tl ts) (butlast ts)))) =
      num_val (last ts) - num_val (hd ts)" if ne: "ts \<noteq> []"
  proof -
    have "map num_val (map (\<lambda>(i, j). num_sub i j) (zip (tl ts) (butlast ts))) =
          map (\<lambda>(i, j). num_val i - num_val j) (zip (tl ts) (butlast ts))"
      using mem by (auto simp: is_int_arith)
    also have "\<dots> = map (\<lambda>(i, j). i - j)
        (zip (tl (map num_val ts)) (butlast (map num_val ts)))"
      by (simp add: zip_map_map split_def flip: map_tl map_butlast)
    finally show ?thesis
      using sum_list_differences [of "map num_val ts"] ne
      by (simp add: last_map hd_map)
  qed
qed

lemma get_event_durations_int:
  assumes "get_event_durations s = Inr s'" and "total_duration s = Total T"
    and "is_int T" and "\<forall>t\<in>set (event_times s). is_int t"
  shows "\<forall>d\<in>set (event_durations s'). is_int d"
    and "sum_list (map num_val (event_durations s')) = num_val T - num_val (hd (event_times s))"
proof -
  let ?ds = "map (\<lambda>(i, j). num_sub i j) (zip (tl (event_times s)) (butlast (event_times s)))"
  from assms(1,2) have ne: "event_times s \<noteq> []"
    and s': "event_durations s' =
      (if num_val (last (event_times s)) \<noteq> num_val T
       then ?ds @ [num_sub T (last (event_times s))] else ?ds)"
    by (auto simp: get_event_durations_def Let_def split: if_splits)
  from ne assms(4) have l: "is_int (last (event_times s))" by simp
  note d = int_differences [OF assms(4)]
  show "\<forall>d\<in>set (event_durations s'). is_int d"
    using d(1) l assms(3) by (auto simp: s' is_int_arith)
  show "sum_list (map num_val (event_durations s')) = num_val T - num_val (hd (event_times s))"
    using d(2) [OF ne] l assms(3) by (simp add: s' is_int_arith)
qed

lemma bits_loop_fields:
  assumes "bits_loop js s = Inr s'"
  shows "total_duration s' = total_duration s \<and> yaml_sequence s' = yaml_sequence s \<and>
    channel_mapping s' = channel_mapping s \<and> ps s' = ps s \<and> warned s' = warned s \<and>
    event_times s' = event_times s \<and> event_durations s' = event_durations s \<and>
    length (channel_bits s') = length (channel_bits s) + length js"
  using assms
proof (induction js arbitrary: s)
  case Nil
  then show ?case by simp
next
  case (Cons j js)
  from Cons.prems obtain s1 where "bits_loop js s1 = Inr s'"
    and "total_duration s1 = total_duration s" "yaml_sequence s1 = yaml_sequence s"
    "channel_mapping s1 = channel_mapping s" "ps s1 = ps s" "warned s1 = warned s"
    "event_times s1 = event_times s" "event_durations s1 = event_durations s"
    "length (channel_bits s1) = Suc (length (channel_bits s))"
    by (auto simp: Let_def split: if_splits option.splits sum.splits)
  with Cons.IH [of s1] show ?case by simp
qed

lemma compute_channel_bits_props:
  assumes "compute_channel_bits s = Inr s'"
  shows "total_duration s' = total_duration s" "yaml_sequence s' = yaml_sequence s"
    "channel_mapping s' = channel_mapping s" "ps s' = ps s"
    "event_times s \<noteq> []"
    "sum_list (map num_val (event_durations s')) =
       num_val (hd (event_times s)) + sum_list (map num_val (event_durations s))"
    "\<forall>d\<in>set (event_durations s'). num_val d \<noteq> 0"
    "channel_bits s = [] \<Longrightarrow>
       length (channel_bits s') = length (event_durations s') \<and> warned s' = warned s"
    "set (event_durations s') \<subseteq> set (event_durations s) \<union> set (event_times s)"
proof -
  from assms obtain s1 where loop: "bits_loop [0..<length (event_durations s)] s = Inr s1"
    and res: "event_times s1 \<noteq> []"
      "s' = (if num_val (event_times s1 ! 0) \<noteq> 0
             then pop_uncessary_entries
                    (s1\<lparr>channel_bits := 0 # channel_bits s1,
                        event_durations := event_times s1 ! 0 # event_durations s1\<rparr>)
             else pop_uncessary_entries s1)"
    by (auto simp: compute_channel_bits_def split: sum.splits if_splits)
  note f = bits_loop_fields [OF loop]
  show "total_duration s' = total_duration s" "yaml_sequence s' = yaml_sequence s"
    "channel_mapping s' = channel_mapping s" "ps s' = ps s"
    using f res by (simp_all add: pop_uncessary_entries_eq)
  show "event_times s \<noteq> []" using f res by simp
  show "sum_list (map num_val (event_durations s')) =
       num_val (hd (event_times s)) + sum_list (map num_val (event_durations s))"
    using f res by (simp add: pop_uncessary_entries_eq sum_list_nonzero hd_conv_nth)
  show "\<forall>d\<in>set (event_durations s'). num_val d \<noteq> 0"
    using res by (simp add: pop_uncessary_entries_eq)
  show "set (event_durations s') \<subseteq> set (event_durations s) \<union> set (event_times s)"
    using f res by (auto simp: pop_uncessary_entries_eq)
  show "length (channel_bits s') = length (event_durations s') \<and> warned s' = warned s"
    if "channel_bits s = []"
  proof -
    have len: "length (channel_bits s1) = length (event_durations s1)"
      using f that by simp
    have nowarn: "filter (\<lambda>j. length bs \<le> j) (indices_to_pop ds) = []"
      if "length bs = length ds" for bs :: "int list" and ds
      using that by (auto simp: filter_empty_conv set_indices_to_pop)
    have same: "length (nths bs (- set (indices_to_pop ds))) =
                length (filter (\<lambda>d. num_val d \<noteq> 0) ds)"
      if "length bs = length ds" for bs :: "int list" and ds
    proof -
      have "length (nths bs (- set (indices_to_pop ds))) =
            length (nths ds (- set (indices_to_pop ds)))"
        using that by (simp add: length_nths)
      then show ?thesis by (simp add: nths_nonzero)
    qed
    show ?thesis
      using f len res nowarn [of "channel_bits s1" "event_durations s1"]
        nowarn [of "0 # channel_bits s1" "event_times s1 ! 0 # event_durations s1"]
        same [of "channel_bits s1" "event_durations s1"]
        same [of "0 # channel_bits s1" "event_times s1 ! 0 # event_durations s1"]
      by (simp add: pop_uncessary_entries_eq)
  qed
qed

lemma parse_block_int_times:
  assumes "int_block blk" and "\<forall>t\<in>set (event_times s). is_int t"
  shows "\<forall>t\<in>set (event_times (parse_block blk s)). is_int t"
proof -
  have ch: "\<forall>t\<in>set (event_times (parse_channel c pls s)). is_int t"
    if "\<forall>p\<in>set pls. is_int (p_start p) \<and> is_int (p_duration p)"
      "\<forall>t\<in>set (event_times s). is_int t" for c pls s
    using that unfolding parse_channel_def
  proof (induction pls arbitrary: s)
    case Nil
    then show ?case by simp
  next
    case (Cons p pls)
    have "\<forall>t\<in>set (event_times (append_event c p s)). is_int t"
      using Cons.prems by (auto simp: append_event_def is_int_arith)
    with Cons.IH [of "append_event c p s"] Cons.prems(1) show ?case by simp
  qed
  show ?thesis
    using assms unfolding parse_block_def int_block_def
  proof (induction blk arbitrary: s)
    case Nil
    then show ?case by simp
  next
    case (Cons cp blk)
    have "\<forall>t\<in>set (event_times (parse_channel (fst cp) (snd cp) s)). is_int t"
      using Cons.prems by (intro ch) auto
    with Cons.IH [of "parse_channel (fst cp) (snd cp) s"] Cons.prems(1)
    show ?case by (simp add: split_def)
  qed
qed

lemma compile_block_props:
  assumes "compile_block blk s = Inr s'"
  shows "total_duration s' = total_duration s" "yaml_sequence s' = yaml_sequence s"
    "channel_mapping s' = channel_mapping s" "ps s' = ps s"
    "\<forall>d\<in>set (event_durations s'). num_val d \<noteq> 0"
    "channel_bits s = [] \<Longrightarrow>
       length (channel_bits s') = length (event_durations s') \<and> warned s' = warned s"
    "total_duration s = Total T \<Longrightarrow> is_int T \<Longrightarrow> int_block blk \<Longrightarrow> event_times s = [] \<Longrightarrow>
       (\<forall>d\<in>set (event_durations s'). is_int d) \<and>
       sum_list (map num_val (event_durations s')) = num_val T"
proof -
  from assms obtain s1 s2 where
    1: "sort_pulses (parse_block blk s) = Inr s1" and
    2: "get_event_durations s1 = Inr s2" and
    3: "compute_channel_bits s2 = Inr s'"
    by (auto simp: compile_block_def split: sum.splits)
  note f1 = sort_pulses_fields [OF 1] and f2 = get_event_durations_fields [OF 2]
    and f3 = compute_channel_bits_props [OF 3]
  show "total_duration s' = total_duration s" "yaml_sequence s' = yaml_sequence s"
    "channel_mapping s' = channel_mapping s" "ps s' = ps s"
    using f1 f2 f3 by simp_all
  show "\<forall>d\<in>set (event_durations s'). num_val d \<noteq> 0" by (rule f3)
  show "length (channel_bits s') = length (event_durations s') \<and> warned s' = warned s"
    if "channel_bits s = []"
    using f3(8) f1 f2 that by simp
  show "(\<forall>d\<in>set (event_durations s'). is_int d) \<and>
       sum_list (map num_val (event_durations s')) = num_val T"
    if T: "total_duration s = Total T" "is_int T" and blk: "int_block blk"
      and e: "event_times s = []"
  proof -
    have "\<forall>t\<in>set (event_times (parse_block blk s)). is_int t"
      using blk e by (intro parse_block_int_times) simp_all
    with f1(8) have ints: "\<forall>t\<in>set (event_times s1). is_int t" by blast
    have T1: "total_duration s1 = Total T" using f1 T by simp
    note g = get_event_durations_int [OF 2 T1 T(2) ints]
    have "\<forall>d\<in>set (event_durations s'). is_int d"
      using f3(9) g(1) ints f2(7) by auto
    moreover have "sum_list (map num_val (event_durations s')) = num_val T"
      using f3(6) g(2) f2(7) by simp
    ultimately show ?thesis by blast
  qed
qed

subsection \<open>Compiling all blocks\<close>

text \<open>Every entry of \<open>ps\<close> after the loop was there before, or is the result of
  compiling a block of the program from a state with empty event lists.\<close>

lemma parse_blocks_props:
  assumes "parse_blocks bs s = Inr s'" and "fresh s"
  shows "yaml_sequence s' = yaml_sequence s \<and> total_duration s' = total_duration s \<and>
    warned s' = warned s \<and>
    (\<forall>b. ps s b \<noteq> None \<longrightarrow> ps s' b \<noteq> None) \<and>
    (\<forall>b\<in>set bs. ps s' b \<noteq> None) \<and>
    (\<forall>b e. ps s' b = Some e \<longrightarrow> ps s b = Some e \<or>
       (\<exists>b' blk s0 s1. b' \<in> set bs \<and> blocks (yaml_sequence s) b' = Some blk \<and>
          total_duration s0 = total_duration s \<and> fresh s0 \<and>
          compile_block blk s0 = Inr s1 \<and> e = (channel_bits s1, event_durations s1)))"
  using assms
proof (induction bs arbitrary: s)
  case Nil
  then show ?case by simp
next
  case (Cons b0 bs)
  from Cons.prems(1) obtain blk s3 where
    blk: "blocks (yaml_sequence s) b0 = Some blk" and
    cb: "compile_block blk s = Inr s3" and
    rest: "parse_blocks bs (reset_attributes
             (s3\<lparr>ps := (ps s3)(b0 \<mapsto> (channel_bits s3, event_durations s3))\<rparr>)) = Inr s'"
    by (auto split: option.splits sum.splits)
  let ?s4 = "reset_attributes (s3\<lparr>ps := (ps s3)(b0 \<mapsto> (channel_bits s3, event_durations s3))\<rparr>)"
  note f = compile_block_props [OF cb]
  have cb0: "channel_bits s = []" using Cons.prems(2) by (simp add: fresh_def)
  have w: "warned s3 = warned s" using f(6) cb0 by simp
  have s4: "fresh ?s4" "yaml_sequence ?s4 = yaml_sequence s"
    "total_duration ?s4 = total_duration s" "warned ?s4 = warned s"
    "ps ?s4 = (ps s)(b0 \<mapsto> (channel_bits s3, event_durations s3))"
    using f(1-4) w by (simp_all add: reset_attributes_def fresh_def)
  note IH = Cons.IH [OF rest s4(1), unfolded s4(2-5)]
  note ih1 = IH [THEN conjunct1]
    and ih2 = IH [THEN conjunct2, THEN conjunct1]
    and ih3 = IH [THEN conjunct2, THEN conjunct2, THEN conjunct1]
    and ih4 = IH [THEN conjunct2, THEN conjunct2, THEN conjunct2, THEN conjunct1]
    and ih5 = IH [THEN conjunct2, THEN conjunct2, THEN conjunct2, THEN conjunct2,
                  THEN conjunct1]
    and ih6 = IH [THEN conjunct2, THEN conjunct2, THEN conjunct2, THEN conjunct2,
                  THEN conjunct2, rule_format]
  have prov: "ps s b = Some e \<or>
       (\<exists>b' blk s0 s1. b' \<in> set (b0 # bs) \<and> blocks (yaml_sequence s) b' = Some blk \<and>
          total_duration s0 = total_duration s \<and> fresh s0 \<and>
          compile_block blk s0 = Inr s1 \<and> e = (channel_bits s1, event_durations s1))"
    if "ps s' b = Some e" for b e
  proof -
    from ih6 [OF that] show ?thesis
    proof
      assume u: "((ps s)(b0 \<mapsto> (channel_bits s3, event_durations s3))) b = Some e"
      show ?thesis
      proof (cases "b = b0")
        case False
        with u have "ps s b = Some e" by simp
        then show ?thesis by (rule disjI1)
      next
        case True
        with u have e: "e = (channel_bits s3, event_durations s3)" by simp
        have "b0 \<in> set (b0 # bs) \<and> blocks (yaml_sequence s) b0 = Some blk \<and>
          total_duration s = total_duration s \<and> fresh s \<and>
          compile_block blk s = Inr s3 \<and> e = (channel_bits s3, event_durations s3)"
          using blk cb Cons.prems(2) e by simp
        then have "\<exists>b' blk s0 s1. b' \<in> set (b0 # bs) \<and>
          blocks (yaml_sequence s) b' = Some blk \<and>
          total_duration s0 = total_duration s \<and> fresh s0 \<and>
          compile_block blk s0 = Inr s1 \<and> e = (channel_bits s1, event_durations s1)"
          by blast
        then show ?thesis by (rule disjI2)
      qed
    next
      assume "\<exists>b' blk s0 s1. b' \<in> set bs \<and> blocks (yaml_sequence s) b' = Some blk \<and>
          total_duration s0 = total_duration s \<and> fresh s0 \<and>
          compile_block blk s0 = Inr s1 \<and> e = (channel_bits s1, event_durations s1)"
      then obtain b' blk' s0 s1 where "b' \<in> set bs" "blocks (yaml_sequence s) b' = Some blk'"
          "total_duration s0 = total_duration s" "fresh s0"
          "compile_block blk' s0 = Inr s1" "e = (channel_bits s1, event_durations s1)"
        by blast
      then have "b' \<in> set (b0 # bs) \<and> blocks (yaml_sequence s) b' = Some blk' \<and>
          total_duration s0 = total_duration s \<and> fresh s0 \<and>
          compile_block blk' s0 = Inr s1 \<and> e = (channel_bits s1, event_durations s1)"
        by simp
      then have "\<exists>b' blk s0 s1. b' \<in> set (b0 # bs) \<and>
          blocks (yaml_sequence s) b' = Some blk \<and>
          total_duration s0 = total_duration s \<and> fresh s0 \<and>
          compile_block blk s0 = Inr s1 \<and> e = (channel_bits s1, event_durations s1)"
        by blast
      then show ?thesis by (rule disjI2)
    qed
  qed
  note a = ih1 ih2 ih3
  from ih4 have b: "\<forall>b. ps s b \<noteq> None \<longrightarrow> ps s' b \<noteq> None" by auto
  from ih4 ih5 have c: "\<forall>b\<in>set (b0 # bs). ps s' b \<noteq> None" by auto
  show ?case
  proof (intro conjI allI impI)
    fix b e assume "ps s' b = Some e"
    then show "ps s b = Some e \<or>
       (\<exists>b' blk s0 s1. b' \<in> set (b0 # bs) \<and> blocks (yaml_sequence s) b' = Some blk \<and>
          total_duration s0 = total_duration s \<and> fresh s0 \<and>
          compile_block blk s0 = Inr s1 \<and> e = (channel_bits s1, event_durations s1))"
      by (rule prov)
  qed (use a b c in simp_all)
qed

lemma fresh_pb_init: "fresh (pb_init cm doc)"
  by (simp add: fresh_def pb_init_def)

lemma parse_file_props:
  assumes "parse_pulse_sequence_file (pb_init cm doc) = Inr s'"
  shows "yaml_sequence s' = doc" "warned s' = []"
    "\<forall>b\<in>set (sequencing_order doc). ps s' b \<noteq> None"
proof -
  from assms have "parse_blocks (sequencing_order doc) (pb_init cm doc) = Inr s'"
    by (simp add: parse_pulse_sequence_file_def pb_init_def)
  from parse_blocks_props [OF this fresh_pb_init]
  have "yaml_sequence s' = yaml_sequence (pb_init cm doc) \<and>
    warned s' = warned (pb_init cm doc) \<and>
    (\<forall>b\<in>set (sequencing_order doc). ps s' b \<noteq> None)"
    by (elim conjE) (intro conjI)
  then show "yaml_sequence s' = doc" "warned s' = []"
    "\<forall>b\<in>set (sequencing_order doc). ps s' b \<noteq> None"
    by (simp_all add: pb_init_def)
qed

lemma parse_file_provenance:
  assumes "parse_pulse_sequence_file (pb_init cm doc) = Inr s'"
    and "ps s' b = Some (bits, durs)"
  obtains b' blk s0 s1 where "b' \<in> set (sequencing_order doc)"
    and "blocks doc b' = Some blk"
    and "total_duration s0 = doc_total_duration doc"
    and "fresh s0" and "compile_block blk s0 = Inr s1"
    and "bits = channel_bits s1" and "durs = event_durations s1"
proof -
  from assms(1) have "parse_blocks (sequencing_order doc) (pb_init cm doc) = Inr s'"
    by (simp add: parse_pulse_sequence_file_def pb_init_def)
  from parse_blocks_props [OF this fresh_pb_init]
  have "\<forall>b e. ps s' b = Some e \<longrightarrow> ps (pb_init cm doc) b = Some e \<or>
       (\<exists>b' blk s0 s1. b' \<in> set (sequencing_order doc) \<and>
          blocks (yaml_sequence (pb_init cm doc)) b' = Some blk \<and>
          total_duration s0 = total_duration (pb_init cm doc) \<and> fresh s0 \<and>
          compile_block blk s0 = Inr s1 \<and> e = (channel_bits s1, event_durations s1))"
    by (elim conjE)
  from this [rule_format, OF assms(2)]
  have "\<exists>b' blk s0 s1. b' \<in> set (sequencing_order doc) \<and>
          blocks (yaml_sequence (pb_init cm doc)) b' = Some blk \<and>
          total_duration s0 = total_duration (pb_init cm doc) \<and>
          fresh s0 \<and> compile_block blk s0 = Inr s1 \<and>
          (bits, durs) = (channel_bits s1, event_durations s1)"
    by (simp add: pb_init_def)
  then obtain b' blk s0 s1 where "b' \<in> set (sequencing_order doc)"
    "blocks (yaml_sequence (pb_init cm doc)) b' = Some blk"
    "total_duration s0 = total_duration (pb_init cm doc)"
    "fresh s0" "compile_block blk s0 = Inr s1"
    "bits = channel_bits s1" "durs = event_durations s1"
    by auto
  moreover have "total_duration (pb_init cm doc) = doc_total_duration doc"
    "yaml_sequence (pb_init cm doc) = doc"
    by (simp_all add: pb_init_def)
  ultimately show thesis using that by simp
qed




text \<open>
  C6, as stated, fails: \<open>_pop_uncessary_entries\<close> called with three durations and one
  bit-field returns normally; the index 2 that does not fit the bit-field list is
  skipped with a warning, and the lists are left with different lengths.
\<close>

theorem mismatch_skipped_counterexample:
  "pop_uncessary_entries s_mismatch =
     s_mismatch\<lparr>event_durations := [PyInt 1], channel_bits := [],
                warned := [BadBitsIndex 2 1]\<rparr>"
  by (simp add: s_mismatch_def pb_init_def pop_uncessary_entries_def indices_to_pop_def
      pop_step_def list_pop_def num_val_def Let_def enumerate_eq_zip upt_rec)

text \<open>
  C6, amended. Pruning always removes the zero durations from the duration list and
  the same positions, as far as they exist, from the bit-field list; an index outside
  the bit-field list is not fatal, it is skipped with one warning and pruning goes on.
  When pruning starts with both lists of the same length, it removes the zero-duration
  positions from both index for index, the lists keep the same length and nothing is
  warned. That is the case for every block that \<open>parse_pulse_sequence_file\<close> compiles:
  the stored lists have the same length, hold no zero duration, and no warning was
  issued.
\<close>

theorem pruning_in_lockstep:
  "pop_uncessary_entries s =
     s\<lparr>event_durations := filter (\<lambda>d. num_val d \<noteq> 0) (event_durations s),
       channel_bits := nths (channel_bits s) (- set (indices_to_pop (event_durations s))),
       warned := warned s @
         map (\<lambda>j. BadBitsIndex j (length (channel_bits s)))
           (rev (filter (\<lambda>j. length (channel_bits s) \<le> j)
              (indices_to_pop (event_durations s))))\<rparr> \<and>
   (length (channel_bits s) = length (event_durations s) \<longrightarrow>
      zip (channel_bits (pop_uncessary_entries s)) (event_durations (pop_uncessary_entries s)) =
        filter (\<lambda>(b, d). num_val d \<noteq> 0) (zip (channel_bits s) (event_durations s)) \<and>
      length (channel_bits (pop_uncessary_entries s)) =
        length (event_durations (pop_uncessary_entries s)) \<and>
      warned (pop_uncessary_entries s) = warned s) \<and>
   (parse_pulse_sequence_file (pb_init cm doc) = Inr s' \<longrightarrow> ps s' b = Some (bits, durs) \<longrightarrow>
      length bits = length durs \<and> (\<forall>d\<in>set durs. num_val d \<noteq> 0) \<and> warned s' = [])"
proof (intro conjI impI)
  show "pop_uncessary_entries s =
     s\<lparr>event_durations := filter (\<lambda>d. num_val d \<noteq> 0) (event_durations s),
       channel_bits := nths (channel_bits s) (- set (indices_to_pop (event_durations s))),
       warned := warned s @
         map (\<lambda>j. BadBitsIndex j (length (channel_bits s)))
           (rev (filter (\<lambda>j. length (channel_bits s) \<le> j)
              (indices_to_pop (event_durations s))))\<rparr>"
    by (rule pop_uncessary_entries_eq)
next
  assume len: "length (channel_bits s) = length (event_durations s)"
  let ?A = "- set (indices_to_pop (event_durations s))"
  have b: "channel_bits (pop_uncessary_entries s) = nths (channel_bits s) ?A"
    and d: "event_durations (pop_uncessary_entries s) = nths (event_durations s) ?A"
    by (simp_all add: pop_uncessary_entries_eq nths_nonzero)
  show z: "zip (channel_bits (pop_uncessary_entries s)) (event_durations (pop_uncessary_entries s)) =
        filter (\<lambda>(b, d). num_val d \<noteq> 0) (zip (channel_bits s) (event_durations s))"
    unfolding b d using len by (simp add: nths_zip_eq filter_zip_nonzero)
  show "length (channel_bits (pop_uncessary_entries s)) =
        length (event_durations (pop_uncessary_entries s))"
    unfolding b d using len by (simp add: length_nths)
  have "filter (\<lambda>j. length (channel_bits s) \<le> j) (indices_to_pop (event_durations s)) = []"
    using len by (auto simp: filter_empty_conv set_indices_to_pop)
  then show "warned (pop_uncessary_entries s) = warned s"
    by (simp add: pop_uncessary_entries_eq)
next
  assume p: "parse_pulse_sequence_file (pb_init cm doc) = Inr s'"
    and e: "ps s' b = Some (bits, durs)"
  from p e obtain blk s0 s1 where
    z: "fresh s0" and c: "compile_block blk s0 = Inr s1"
    and d: "bits = channel_bits s1" "durs = event_durations s1"
    by (rule parse_file_provenance)
  from z have "channel_bits s0 = []" by (simp add: fresh_def)
  with compile_block_props(5,6) [OF c] d
  show "length bits = length durs" "\<forall>d\<in>set durs. num_val d \<noteq> 0" by simp_all
  show "warned s' = []" using p by (rule parse_file_props)
qed

theorem pruning_in_lockstep_witness:
  "length (channel_bits s_lockstep) = length (event_durations s_lockstep) \<and>
   zip (channel_bits (pop_uncessary_entries s_lockstep))
       (event_durations (pop_uncessary_entries s_lockstep)) = [(6, PyFloat 1 0)] \<and>
   parse_pulse_sequence_file (pb_init [''a'' \<mapsto> 0, ''b'' \<mapsto> 1] two_channel_doc) =
     Inr ((pb_init [''a'' \<mapsto> 0, ''b'' \<mapsto> 1] two_channel_doc)
            \<lparr>ps := [''B'' \<mapsto> ([0, 1, 3, 2, 0],
                       [PyInt 1, PyInt 1, PyInt 1, PyInt 2, PyInt 5])]\<rparr>) \<and>
   length [0, 1, 3, 2, 0 :: int] = length [PyInt 1, PyInt 1, PyInt 1, PyInt 2, PyInt 5]"
proof -
  let ?s' = "(pb_init [''a'' \<mapsto> 0, ''b'' \<mapsto> 1] two_channel_doc)
            \<lparr>ps := [''B'' \<mapsto> ([0, 1, 3, 2, 0],
                       [PyInt 1, PyInt 1, PyInt 1, PyInt 2, PyInt 5])]\<rparr>"
  have h1: "length (channel_bits s_lockstep) = length (event_durations s_lockstep)"
    by (simp add: s_lockstep_def pb_init_def)
  have h2: "parse_pulse_sequence_file (pb_init [''a'' \<mapsto> 0, ''b'' \<mapsto> 1] two_channel_doc) =
     Inr ?s'"
    by (simp add: parse_pulse_sequence_file_def pb_init_def block_defs reset_attributes_def
      two_channel_doc_def unit_pulse_def num_defs Let_def enumerate_eq_zip upt_rec)
  have h3: "ps ?s' ''B'' = Some ([0, 1, 3, 2, 0], [PyInt 1, PyInt 1, PyInt 1, PyInt 2, PyInt 5])"
    by simp
  note T = pruning_in_lockstep [of s_lockstep "[''a'' \<mapsto> 0, ''b'' \<mapsto> 1]"
      two_channel_doc ?s' "''B''" "[0, 1, 3, 2, 0]"
      "[PyInt 1, PyInt 1, PyInt 1, PyInt 2, PyInt 5]"]
  from T h1 have z: "zip (channel_bits (pop_uncessary_entries s_lockstep))
       (event_durations (pop_uncessary_entries s_lockstep)) =
     filter (\<lambda>(b, d). num_val d \<noteq> 0)
       (zip (channel_bits s_lockstep) (event_durations s_lockstep))"
    by blast
  have r: "filter (\<lambda>(b, d). num_val d \<noteq> 0)
       (zip (channel_bits s_lockstep) (event_durations s_lockstep)) = [(6, PyFloat 1 0)]"
    by (simp add: s_lockstep_def pb_init_def num_val_def)
  from T h2 h3 have l: "length [0, 1, 3, 2, 0 :: int] =
      length [PyInt 1, PyInt 1, PyInt 1, PyInt 2, PyInt 5]"
    by blast
  show ?thesis using h1 h2 z r l by simp
qed

subsection \<open>Repeat expansion of the event list\<close>

lemma length_list_times: "length (list_times xs n) = nat n * length xs"
  by (simp add: list_times_def length_concat sum_list_replicate)

lemma compile_loop_eq:
  assumes "\<forall>(b, r)\<in>set prs. ps s b \<noteq> None"
  shows "compile_loop prs s (cb, bd) =
     Inr (cb @ concat (map (\<lambda>(b, r). list_times (fst (the (ps s b))) r) prs),
          bd @ concat (map (\<lambda>(b, r). list_times (snd (the (ps s b))) r) prs))"
  using assms
proof (induction prs arbitrary: cb bd)
  case Nil
  then show ?case by simp
next
  case (Cons pr prs)
  obtain b r where pr: "pr = (b, r)" by (cases pr)
  with Cons.prems obtain bits durs where e: "ps s b = Some (bits, durs)" by auto
  from Cons.prems have "\<forall>(b, r)\<in>set prs. ps s b \<noteq> None" by simp
  from Cons.IH [OF this] show ?case by (simp add: pr e)
qed

lemma compile_after_parse:
  assumes "parse_pulse_sequence_file (pb_init cm doc) = Inr s'"
  shows "compile s' =
     Inr (concat (map (\<lambda>(b, r). list_times (fst (the (ps s' b))) r)
            (zip (sequencing_order doc) (sequencing_repeats doc))),
          concat (map (\<lambda>(b, r). list_times (snd (the (ps s' b))) r)
            (zip (sequencing_order doc) (sequencing_repeats doc))))"
proof -
  note f = parse_file_props [OF assms]
  have "\<forall>(b, r)\<in>set (zip (sequencing_order doc) (sequencing_repeats doc)). ps s' b \<noteq> None"
    using f(3) by (auto dest: set_zip_leftD)
  from compile_loop_eq [OF this, of "[]" "[]"] show ?thesis
    by (simp add: compile_def f(1))
qed

lemma length_concat_list_times:
  "length (concat (map (\<lambda>(b, r). list_times (f b) r) prs)) =
   (\<Sum>(b, r)\<leftarrow>prs. nat r * length (f b))"
  by (induction prs) (auto simp: length_list_times)

section \<open>Properties of the change cache\<close>

text \<open>
  C8, as stated, fails: when the sidecar already holds the specification, the first
  of two calls returns true.
\<close>

theorem cache_first_call_counterexample:
  "sequence_didnt_change
     \<lparr>yaml_file = Some two_channel_doc, aux_file = Some two_channel_doc, npz_file = None\<rparr> =
   Inr (True,
     \<lparr>yaml_file = Some two_channel_doc, aux_file = Some two_channel_doc, npz_file = None\<rparr>)"
  by (simp add: sequence_didnt_change_def)

text \<open>
  C8, amended. Of two calls in a row on the same specification file, the second
  returns true; the first returns false when there is no sidecar or the sidecar
  differs from the specification, and true when the sidecar already holds it. The
  first call leaves the specification in the sidecar.
\<close>

theorem cache_twice:
  assumes "yaml_file fs = Some doc"
  shows "\<exists>fs1. sequence_didnt_change fs = Inr (aux_file fs = Some doc, fs1) \<and>
           yaml_file fs1 = Some doc \<and> aux_file fs1 = Some doc \<and>
           sequence_didnt_change fs1 = Inr (True, fs1)"
  using assms by (cases "aux_file fs") (auto simp: sequence_didnt_change_def)

theorem cache_twice_witness:
  "sequence_didnt_change
     \<lparr>yaml_file = Some two_channel_doc, aux_file = None, npz_file = None\<rparr> =
   Inr (False,
     \<lparr>yaml_file = Some two_channel_doc, aux_file = Some two_channel_doc, npz_file = None\<rparr>) \<and>
   sequence_didnt_change
     \<lparr>yaml_file = Some two_channel_doc, aux_file = Some two_channel_doc, npz_file = None\<rparr> =
   Inr (True,
     \<lparr>yaml_file = Some two_channel_doc, aux_file = Some two_channel_doc, npz_file = None\<rparr>)"
proof -
  have h: "yaml_file \<lparr>yaml_file = Some two_channel_doc, aux_file = None, npz_file = None\<rparr> =
    Some two_channel_doc"
    by simp
  from cache_twice [OF h] show ?thesis
    by (auto simp: sequence_didnt_change_def)
qed

section \<open>Properties of the analog waveform compiler\<close>

subsection \<open>Slices and quantization\<close>

lemma slice_range_bounds:
  assumes "slice_range n lo hi = (a, b)"
  shows "a \<le> b" "b \<le> n"
  using assms by (auto simp: slice_range_def slice_bound_def Let_def max_def min_def split: if_splits)

lemma length_written:
  "a \<le> b \<Longrightarrow> b \<le> length row \<Longrightarrow> length (take a row @ map g [a..<b] @ drop b row) = length row"
  by simp

lemma nth_written:
  assumes "a \<le> b" "b \<le> length row" "i < length row"
  shows "(take a row @ map g [a..<b] @ drop b row) ! i =
         (if a \<le> i \<and> i < b then g i else row ! i)"
proof -
  consider "i < a" | "a \<le> i" "i < b" | "b \<le> i" by linarith
  then show ?thesis
  proof cases
    case 1
    then show ?thesis using assms by (simp add: nth_append)
  next
    case 2
    then have "i - a < b - a" by linarith
    with 2 show ?thesis using assms by (simp add: nth_append)
  next
    case 3
    then have "\<not> i - a < b - a" "b + (i - a - (b - a)) = i" using assms by linarith+
    with 3 show ?thesis using assms by (simp add: nth_append)
  qed
qed

lemma take_drop_map_nth:
  "a \<le> b \<Longrightarrow> b \<le> length xs \<Longrightarrow> take (b - a) (drop a xs) = map ((!) xs) [a..<b]"
  by (rule nth_equalityI) auto

lemma set_row_slice_envelope:
  assumes "length row = length (time s)" and "slice_range (length row) lo hi = (a, b)"
  shows "set_row_slice row lo hi (scale amplitude (fr_of s freq lo hi)) =
         Inr (take a row @ map (envelope s amplitude freq) [a..<b] @ drop b row)"
proof (cases freq)
  case None
  have "replicate (b - a) amplitude = map (envelope s amplitude None) [a..<b]"
    by (rule nth_equalityI) (simp_all add: envelope_def)
  then show ?thesis
    using assms None by (simp add: set_row_slice_def fr_of_def scale_def)
next
  case (Some fp)
  obtain frequency phase where fp: "fp = (frequency, phase)" by (cases fp)
  note b = slice_range_bounds [OF assms(2)]
  have sl: "py_slice (time s) lo hi = map ((!) (time s)) [a..<b]"
    using assms b by (simp add: py_slice_def take_drop_map_nth)
  show ?thesis
    using assms Some fp b
    by (simp add: set_row_slice_def fr_of_def scale_def sl envelope_def comp_def)
qed

lemma time_to_index_state: "\<exists>k. snd (time_to_index t s) = s\<lparr>warning_counter := k\<rparr>"
proof (cases "isclose (samp_rate s * t * (1 / 10 ^ 6)) (of_int (py_round (samp_rate s * t * (1 / 10 ^ 6))))")
  case True
  then have "snd (time_to_index t s) = s\<lparr>warning_counter := warning_counter s\<rparr>"
    by (simp add: time_to_index_def Let_def)
  then show ?thesis ..
next
  case False
  then have "snd (time_to_index t s) = s\<lparr>warning_counter := warning_counter s + 1\<rparr>"
    by (simp add: time_to_index_def Let_def)
  then show ?thesis ..
qed

lemma quantize_state:
  "\<exists>k. snd (snd (quantize inputtype st du s)) = s\<lparr>warning_counter := k\<rparr>"
proof (cases "inputtype = ''time''")
  case True
  obtain i s1 where 1: "time_to_index st s = (i, s1)" by (cases "time_to_index st s")
  obtain j s2 where 2: "time_to_index du s1 = (j, s2)" by (cases "time_to_index du s1")
  from time_to_index_state [of st s] 1 obtain k where "s1 = s\<lparr>warning_counter := k\<rparr>" by auto
  moreover from time_to_index_state [of du s1] 2 obtain k' where "s2 = s1\<lparr>warning_counter := k'\<rparr>"
    by auto
  ultimately have "s2 = s\<lparr>warning_counter := k'\<rparr>" by simp
  then show ?thesis using True 1 2 by (auto simp: quantize_def)
next
  case False
  then have "snd (snd (quantize inputtype st du s)) = s\<lparr>warning_counter := warning_counter s\<rparr>"
    by (simp add: quantize_def)
  then show ?thesis ..
qed

lemma wf_seq_counter [simp]: "wf_seq (s\<lparr>warning_counter := k\<rparr>) = wf_seq s"
  by (simp add: wf_seq_def)

lemma envelope_counter [simp]: "envelope (s\<lparr>warning_counter := k\<rparr>) = envelope s"
  by (simp add: envelope_def fun_eq_iff split: option.splits)

subsection \<open>Writing a pulse\<close>

lemma wf_seq_nth:
  assumes "wf_seq s" "v < numseqs s" "r < 7 * length (awg_sources s)"
  shows "length (pulses s ! v) = 7 * length (awg_sources s)"
    "length (pulses s ! v ! r) = num_points s"
proof -
  from assms have "pulses s ! v \<in> set (pulses s)" by (simp add: wf_seq_def)
  with assms(1) have l: "length (pulses s ! v) = 7 * length (awg_sources s)"
    and rows: "\<forall>row\<in>set (pulses s ! v). length row = num_points s"
    by (auto simp: wf_seq_def)
  show "length (pulses s ! v) = 7 * length (awg_sources s)" by (rule l)
  from l assms(3) have "pulses s ! v ! r \<in> set (pulses s ! v)" by simp
  with rows show "length (pulses s ! v ! r) = num_points s" by blast
qed

text \<open>What a successful write leaves behind: the shape, and every sample.\<close>

lemma add_pulse_Single:
  assumes wf: "wf_seq s"
    and n: "np_index (numseqs s) n = Some vi"
    and c: "row_of s channel = Some c"
    and ir: "index_range inputtype st du s = (lo, hi)"
    and sr: "slice_range (num_points s) lo hi = (a, b)"
  shows "\<exists>k. add_pulse (Single n) st du channel inputtype amplitude freq s =
      Inr (s\<lparr>warning_counter := k,
             pulses := (pulses s)[vi := (pulses s ! vi)[c :=
               take a (pulses s ! vi ! c) @ map (envelope s amplitude freq) [a..<b] @
               drop b (pulses s ! vi ! c)]]\<rparr>)"
proof -
  obtain st1 du1 s2 where q: "quantize inputtype st du s = (st1, du1, s2)"
    by (cases "quantize inputtype st du s") auto
  with quantize_state [of inputtype st du s] obtain k where s2: "s2 = s\<lparr>warning_counter := k\<rparr>"
    by auto
  from ir q have lohi: "py_int st1 = lo" "py_int (st1 + du1) = hi"
    by (simp_all add: index_range_def)
  from n have vi: "vi < numseqs s" by (auto simp: np_index_def split: if_splits)
  from c have cr: "c < 7 * length (awg_sources s)"
    by (auto simp: row_of_def np_index_def split: if_splits)
  note len = wf_seq_nth [OF wf vi cr]
  have t: "length (time s) = num_points s" using wf by (simp add: wf_seq_def)
  have row: "set_row_slice (pulses s ! vi ! c) lo hi (scale amplitude (fr_of s2 freq lo hi)) =
     Inr (take a (pulses s ! vi ! c) @ map (envelope s amplitude freq) [a..<b] @
               drop b (pulses s ! vi ! c))"
    using set_row_slice_envelope [of "pulses s ! vi ! c" s2 lo hi a b amplitude freq]
      len t sr by (simp add: s2)
  have "set_single s2 n channel lo hi (scale amplitude (fr_of s2 freq lo hi)) =
     Inr ((pulses s)[vi := (pulses s ! vi)[c :=
               take a (pulses s ! vi ! c) @ map (envelope s amplitude freq) [a..<b] @
               drop b (pulses s ! vi ! c)]])"
    unfolding set_single_def using n c row by (simp add: row_of_def s2)
  then have "add_pulse (Single n) st du channel inputtype amplitude freq s =
      Inr (s2\<lparr>pulses := (pulses s)[vi := (pulses s ! vi)[c :=
               take a (pulses s ! vi ! c) @ map (envelope s amplitude freq) [a..<b] @
               drop b (pulses s ! vi ! c)]]\<rparr>)"
    by (simp add: add_pulse_def q lohi)
  then show ?thesis unfolding s2 by blast
qed

lemma add_pulse_Pair:
  assumes wf: "wf_seq s"
    and c: "row_of s channel = Some c"
    and ir: "index_range inputtype st du s = (lo, hi)"
    and sr: "slice_range (num_points s) lo hi = (a, b)"
    and vr: "slice_range (numseqs s) n0 n1 = (a', b')"
  shows "\<exists>k. add_pulse (Pair n0 n1) st du channel inputtype amplitude freq s =
      Inr (s\<lparr>warning_counter := k,
             pulses := map (\<lambda>(vi, var). if a' \<le> vi \<and> vi < b'
                 then var[c := take a (var ! c) @ map (envelope s amplitude freq) [a..<b] @
                                drop b (var ! c)]
                 else var) (enumerate 0 (pulses s))\<rparr>)"
proof -
  obtain st1 du1 s2 where q: "quantize inputtype st du s = (st1, du1, s2)"
    by (cases "quantize inputtype st du s") auto
  with quantize_state [of inputtype st du s] obtain k where s2: "s2 = s\<lparr>warning_counter := k\<rparr>"
    by auto
  from ir q have lohi: "py_int st1 = lo" "py_int (st1 + du1) = hi"
    by (simp_all add: index_range_def)
  from c have cr: "c < 7 * length (awg_sources s)"
    by (auto simp: row_of_def np_index_def split: if_splits)
  have t: "length (time s) = num_points s" using wf by (simp add: wf_seq_def)
  let ?v = "scale amplitude (fr_of s2 freq lo hi)"
  have dummy: "set_row_slice (replicate (num_points s) 0) lo hi ?v =
     Inr (take a (replicate (num_points s) 0) @ map (envelope s amplitude freq) [a..<b] @
               drop b (replicate (num_points s) 0))"
    using set_row_slice_envelope [of "replicate (num_points s) 0" s2 lo hi a b amplitude freq]
      t sr by (simp add: s2)
  have row: "set_row_slice (var ! c) lo hi ?v =
     Inr (take a (var ! c) @ map (envelope s amplitude freq) [a..<b] @ drop b (var ! c))"
    if "var \<in> set (pulses s)" for var
  proof -
    from that wf cr have "length (var ! c) = num_points s" by (auto simp: wf_seq_def)
    with set_row_slice_envelope [of "var ! c" s2 lo hi a b amplitude freq] t sr
    show ?thesis by (simp add: s2)
  qed
  have m: "map (\<lambda>(vi, var). if a' \<le> vi \<and> vi < b'
              then (case set_row_slice (var ! c) lo hi ?v of Inl _ \<Rightarrow> var | Inr row \<Rightarrow> var[c := row])
              else var) (enumerate 0 (pulses s)) =
           map (\<lambda>(vi, var). if a' \<le> vi \<and> vi < b'
                 then var[c := take a (var ! c) @ map (envelope s amplitude freq) [a..<b] @
                                drop b (var ! c)]
                 else var) (enumerate 0 (pulses s))"
    by (rule map_cong) (auto simp: row in_set_enumerate_eq)
  have "set_range s2 n0 n1 channel lo hi ?v =
     Inr (map (\<lambda>(vi, var). if a' \<le> vi \<and> vi < b'
                 then var[c := take a (var ! c) @ map (envelope s amplitude freq) [a..<b] @
                                drop b (var ! c)]
                 else var) (enumerate 0 (pulses s)))"
    unfolding set_range_def using c dummy vr m by (simp add: row_of_def s2)
  then have "add_pulse (Pair n0 n1) st du channel inputtype amplitude freq s =
      Inr (s2\<lparr>pulses := map (\<lambda>(vi, var). if a' \<le> vi \<and> vi < b'
                 then var[c := take a (var ! c) @ map (envelope s amplitude freq) [a..<b] @
                                drop b (var ! c)]
                 else var) (enumerate 0 (pulses s))\<rparr>)"
    by (simp add: add_pulse_def q lohi)
  then show ?thesis unfolding s2 by blast
qed


lemma tensor_update_props:
  assumes wf: "wf_seq s" and cr: "c < 7 * length (awg_sources s)"
    and ab: "a \<le> b" "b \<le> num_points s"
    and len: "length t = numseqs s"
    and upd: "\<And>v. v < numseqs s \<Longrightarrow>
       t ! v = (if P v
                then (pulses s ! v)[c := take a (pulses s ! v ! c) @ map g [a..<b] @
                                          drop b (pulses s ! v ! c)]
                else pulses s ! v)"
  shows "wf_seq (s\<lparr>warning_counter := k, pulses := t\<rparr>)"
    and "\<And>v r i. v < numseqs s \<Longrightarrow> r < 7 * length (awg_sources s) \<Longrightarrow> i < num_points s \<Longrightarrow>
       t ! v ! r ! i = (if P v \<and> r = c \<and> a \<le> i \<and> i < b then g i else pulses s ! v ! r ! i)"
proof -
  have row: "length (t ! v ! r) = num_points s \<and> length (t ! v) = 7 * length (awg_sources s)"
    if "v < numseqs s" "r < 7 * length (awg_sources s)" for v r
    using wf_seq_nth [OF wf that] wf_seq_nth [OF wf that(1) cr] upd [OF that(1)] ab that cr
    by (cases "r = c") auto
  have lenv: "length (t ! v) = 7 * length (awg_sources s)" if "v < numseqs s" for v
    using wf_seq_nth(1) [OF wf that cr] upd [OF that] by auto
  show "wf_seq (s\<lparr>warning_counter := k, pulses := t\<rparr>)"
    unfolding wf_seq_def
  proof (intro conjI ballI)
    show "length (pulses (s\<lparr>warning_counter := k, pulses := t\<rparr>)) =
          numseqs (s\<lparr>warning_counter := k, pulses := t\<rparr>)"
      using len by simp
    show "length (time (s\<lparr>warning_counter := k, pulses := t\<rparr>)) =
          num_points (s\<lparr>warning_counter := k, pulses := t\<rparr>)"
      using wf by (simp add: wf_seq_def)
  next
    fix var assume "var \<in> set (pulses (s\<lparr>warning_counter := k, pulses := t\<rparr>))"
    then obtain v where v: "v < numseqs s" "var = t ! v"
      using len by (auto simp: in_set_conv_nth)
    then show "length var = 7 * length (awg_sources (s\<lparr>warning_counter := k, pulses := t\<rparr>))"
      using lenv by simp
    fix rw assume "rw \<in> set var"
    then obtain r where "r < 7 * length (awg_sources s)" "rw = var ! r"
      using v lenv by (auto simp: in_set_conv_nth)
    then show "length rw = num_points (s\<lparr>warning_counter := k, pulses := t\<rparr>)"
      using row v by simp
  qed
  show "t ! v ! r ! i = (if P v \<and> r = c \<and> a \<le> i \<and> i < b then g i else pulses s ! v ! r ! i)"
    if "v < numseqs s" "r < 7 * length (awg_sources s)" "i < num_points s" for v r i
  proof (cases "P v \<and> r = c")
    case True
    have "i < length (pulses s ! v ! c)" "b \<le> length (pulses s ! v ! c)"
      using wf_seq_nth [OF wf that(1) cr] that ab by simp_all
    from nth_written [OF ab(1) this(2) this(1), of g]
    show ?thesis using True upd [OF that(1)] wf_seq_nth(1) [OF wf that(1) cr] cr by simp
  next
    case False
    then show ?thesis using upd [OF that(1)] by auto
  qed
qed

lemma add_pulse_samples:
  assumes wf: "wf_seq s"
    and vs: "variants_of s nsq = Some vs"
    and c: "row_of s channel = Some c"
    and ir: "index_range inputtype st du s = (lo, hi)"
    and sr: "slice_range (num_points s) lo hi = (a, b)"
  shows "\<exists>s'. add_pulse nsq st du channel inputtype amplitude freq s = Inr s' \<and>
     wf_seq s' \<and> numseqs s' = numseqs s \<and> awg_sources s' = awg_sources s \<and>
     num_points s' = num_points s \<and> time s' = time s \<and> samp_rate s' = samp_rate s \<and>
     (\<forall>v r i. v < numseqs s \<longrightarrow> r < 7 * length (awg_sources s) \<longrightarrow> i < num_points s \<longrightarrow>
        pulses s' ! v ! r ! i =
          (if v \<in> set vs \<and> r = c \<and> a \<le> i \<and> i < b then envelope s amplitude freq i
           else pulses s ! v ! r ! i))"
proof -
  from c have cr: "c < 7 * length (awg_sources s)"
    by (auto simp: row_of_def np_index_def split: if_splits)
  note ab = slice_range_bounds [OF sr]
  have len: "length (pulses s) = numseqs s" using wf by (simp add: wf_seq_def)
  show ?thesis
  proof (cases nsq)
    case (Single n)
    with vs obtain vi where n: "np_index (numseqs s) n = Some vi" and vsi: "vs = [vi]"
      by (auto simp: variants_of_def)
    from n have vi: "vi < numseqs s" by (auto simp: np_index_def split: if_splits)
    let ?t = "(pulses s)[vi := (pulses s ! vi)[c :=
               take a (pulses s ! vi ! c) @ map (envelope s amplitude freq) [a..<b] @
               drop b (pulses s ! vi ! c)]]"
    from add_pulse_Single [OF wf n c ir sr] obtain k where
      res: "add_pulse (Single n) st du channel inputtype amplitude freq s =
        Inr (s\<lparr>warning_counter := k, pulses := ?t\<rparr>)" by blast
    have upd: "?t ! v = (if v \<in> set vs
                then (pulses s ! v)[c := take a (pulses s ! v ! c) @
                       map (envelope s amplitude freq) [a..<b] @ drop b (pulses s ! v ! c)]
                else pulses s ! v)" if "v < numseqs s" for v
      using that len vsi by (simp add: nth_list_update)
    from tensor_update_props(1) [OF wf cr ab _ upd, where k = k]
      tensor_update_props(2) [OF wf cr ab _ upd] len res Single
    show ?thesis by simp
  next
    case (Pair n0 n1)
    obtain a' b' where vr: "slice_range (numseqs s) n0 n1 = (a', b')"
      by (cases "slice_range (numseqs s) n0 n1")
    with vs Pair have vsi: "vs = [a'..<b']" by (simp add: variants_of_def)
    let ?t = "map (\<lambda>(vi, var). if a' \<le> vi \<and> vi < b'
                 then var[c := take a (var ! c) @ map (envelope s amplitude freq) [a..<b] @
                                drop b (var ! c)]
                 else var) (enumerate 0 (pulses s))"
    from add_pulse_Pair [OF wf c ir sr vr] obtain k where
      res: "add_pulse (Pair n0 n1) st du channel inputtype amplitude freq s =
        Inr (s\<lparr>warning_counter := k, pulses := ?t\<rparr>)" by blast
    have upd: "?t ! v = (if v \<in> set vs
                then (pulses s ! v)[c := take a (pulses s ! v ! c) @
                       map (envelope s amplitude freq) [a..<b] @ drop b (pulses s ! v ! c)]
                else pulses s ! v)" if "v < numseqs s" for v
      using that len vsi by (simp add: nth_enumerate_eq)
    have "length ?t = numseqs s" using len by simp
    from tensor_update_props(1) [OF wf cr ab this upd, where k = k]
      tensor_update_props(2) [OF wf cr ab this upd] res Pair
    show ?thesis by simp
  qed
qed

lemma index_range_cong:
  "samp_rate s' = samp_rate s \<Longrightarrow> index_range inputtype st du s' = index_range inputtype st du s"
  by (simp add: index_range_def quantize_def time_to_index_def Let_def split_def)

lemma variants_of_cong:
  "numseqs s' = numseqs s \<Longrightarrow> variants_of s' nsq = variants_of s nsq"
  by (simp add: variants_of_def split: numseq.splits)

lemma row_of_cong:
  "awg_sources s' = awg_sources s \<Longrightarrow> row_of s' channel = row_of s channel"
  by (simp add: row_of_def)

lemma envelope_cong: "time s' = time s \<Longrightarrow> envelope s' = envelope s"
  by (simp add: envelope_def fun_eq_iff split: option.splits)

lemma variants_of_bound:
  assumes "variants_of s nsq = Some vs" and "v \<in> set vs"
  shows "v < numseqs s"
proof (cases nsq)
  case (Single n)
  with assms show ?thesis
    by (auto simp: variants_of_def np_index_def split: if_splits)
next
  case (Pair n0 n1)
  obtain a b where ab: "slice_range (numseqs s) n0 n1 = (a, b)"
    by (cases "slice_range (numseqs s) n0 n1")
  from slice_range_bounds [OF ab] assms Pair ab show ?thesis
    by (auto simp: variants_of_def)
qed

lemma row_of_bound: "row_of s channel = Some c \<Longrightarrow> c < 7 * length (awg_sources s)"
  by (auto simp: row_of_def np_index_def split: if_splits)

lemma wf_seq4: "wf_seq seq4"
  by (simp add: wf_seq_def seq4_def)

lemmas seq_eval =
  index_range_def quantize_def time_to_index_def py_round_def py_int_def isclose_def
  variants_of_def row_of_def np_index_def Let_def

text \<open>
  C9. A pulse whose quantized start index \<open>lo\<close> is not negative and whose quantized
  end index \<open>hi\<close> (start plus duration) exceeds \<open>num_points\<close>, written to variants
  and a row that exist: \<open>add_pulse\<close> raises no error; the tensor keeps its shape
  (\<open>wf_seq\<close>, with the same \<open>numseqs\<close>, sources and \<open>num_points\<close>), so nothing is stored
  at or past \<open>num_points\<close>; and the write is clipped to the row: the samples from \<open>lo\<close>
  to the end of the row take the pulse's value, every other sample is unchanged.
\<close>

theorem add_pulse_clips:
  assumes "wf_seq s"
    and "variants_of s nsq = Some vs"
    and "row_of s channel = Some c"
    and "index_range inputtype st du s = (lo, hi)"
    and "0 \<le> lo" and "int (num_points s) < hi"
  shows "\<exists>s'. add_pulse nsq st du channel inputtype amplitude freq s = Inr s' \<and>
     wf_seq s' \<and> numseqs s' = numseqs s \<and> awg_sources s' = awg_sources s \<and>
     num_points s' = num_points s \<and>
     (\<forall>v r i. v < numseqs s \<longrightarrow> r < 7 * length (awg_sources s) \<longrightarrow> i < num_points s \<longrightarrow>
        pulses s' ! v ! r ! i =
          (if v \<in> set vs \<and> r = c \<and> lo \<le> int i then envelope s amplitude freq i
           else pulses s ! v ! r ! i))"
proof -
  have sr: "slice_range (num_points s) lo hi = (min (nat lo) (num_points s), num_points s)"
    using assms(5,6) by (simp add: slice_range_def slice_bound_def Let_def)
  have "(min (nat lo) (num_points s) \<le> i \<and> i < num_points s) = (lo \<le> int i)"
    if "i < num_points s" for i
    using that assms(5) by auto
  note eq = this
  from add_pulse_samples [OF assms(1-4) sr, where amplitude = amplitude and freq = freq]
  obtain s' where s': "add_pulse nsq st du channel inputtype amplitude freq s = Inr s'"
    "wf_seq s'" "numseqs s' = numseqs s" "awg_sources s' = awg_sources s"
    "num_points s' = num_points s"
    and smp: "\<And>v r i. v < numseqs s \<Longrightarrow> r < 7 * length (awg_sources s) \<Longrightarrow> i < num_points s \<Longrightarrow>
        pulses s' ! v ! r ! i =
          (if v \<in> set vs \<and> r = c \<and> min (nat lo) (num_points s) \<le> i \<and> i < num_points s
           then envelope s amplitude freq i else pulses s ! v ! r ! i)"
    by blast
  have "pulses s' ! v ! r ! i =
          (if v \<in> set vs \<and> r = c \<and> lo \<le> int i then envelope s amplitude freq i
           else pulses s ! v ! r ! i)"
    if "v < numseqs s" "r < 7 * length (awg_sources s)" "i < num_points s" for v r i
    using smp [OF that] eq [OF that(3)] by simp
  with s' show ?thesis by blast
qed

theorem add_pulse_clips_witness:
  "wf_seq seq4 \<and> index_range ''time'' 1 9 seq4 = (1, 10) \<and> int (num_points seq4) < 10 \<and>
   (\<exists>s'. add_pulse (Single 0) 1 9 0 ''time'' (1 / 2) None seq4 = Inr s' \<and> wf_seq s' \<and>
      num_points s' = 4 \<and>
      pulses s' ! 0 ! 0 ! 0 = 0 \<and> pulses s' ! 0 ! 0 ! 1 = 1 / 2 \<and>
      pulses s' ! 0 ! 0 ! 3 = 1 / 2)"
proof -
  have h: "variants_of seq4 (Single 0) = Some [0]" "row_of seq4 0 = Some 0"
    "index_range ''time'' 1 9 seq4 = (1, 10)" "(0::int) \<le> 1" "int (num_points seq4) < 10"
    by (simp_all add: seq_eval seq4_def)
  from add_pulse_clips [OF wf_seq4 h, of "1 / 2" None]
  obtain s' where s': "add_pulse (Single 0) 1 9 0 ''time'' (1 / 2) None seq4 = Inr s'"
    "wf_seq s'" "num_points s' = num_points seq4"
    and smp: "\<And>v r i. v < numseqs seq4 \<Longrightarrow> r < 7 * length (awg_sources seq4) \<Longrightarrow>
        i < num_points seq4 \<Longrightarrow>
        pulses s' ! v ! r ! i =
          (if v \<in> set [0] \<and> r = 0 \<and> 1 \<le> int i then envelope seq4 (1 / 2) None i
           else pulses seq4 ! v ! r ! i)"
    by blast
  have "pulses s' ! 0 ! 0 ! 0 = 0" "pulses s' ! 0 ! 0 ! 1 = 1 / 2" "pulses s' ! 0 ! 0 ! 3 = 1 / 2"
    using smp [of 0 0 0] smp [of 0 0 1] smp [of 0 0 3]
    by (simp_all add: seq4_def envelope_def)
  note smps = this
  have np: "num_points seq4 = 4" by (simp add: seq4_def)
  have ex: "\<exists>s'. add_pulse (Single 0) 1 9 0 ''time'' (1 / 2) None seq4 = Inr s' \<and> wf_seq s' \<and>
      num_points s' = 4 \<and>
      pulses s' ! 0 ! 0 ! 0 = 0 \<and> pulses s' ! 0 ! 0 ! 1 = 1 / 2 \<and>
      pulses s' ! 0 ! 0 ! 3 = 1 / 2"
    using s' smps np by (intro exI [of _ s']) simp
  show ?thesis using wf_seq4 h(3,5) ex by blast
qed

text \<open>
  C5. Two pulses added in order to the same channel, with overlapping quantized index
  ranges: both calls succeed, and a sample \<open>i\<close> in the overlap (in a variant that both
  calls address) holds the first pulse's value after the first call and exactly the
  second pulse's value after the second call, flat amplitude or modulated envelope;
  the values are not added.
\<close>

theorem later_pulse_overwrites:
  assumes wf: "wf_seq s"
    and c: "row_of s channel = Some c"
    and v1: "variants_of s nsq1 = Some vs1" and v2: "variants_of s nsq2 = Some vs2"
    and r1: "index_range inputtype1 st1 du1 s = (lo1, hi1)"
            "slice_range (num_points s) lo1 hi1 = (a1, b1)"
    and r2: "index_range inputtype2 st2 du2 s = (lo2, hi2)"
            "slice_range (num_points s) lo2 hi2 = (a2, b2)"
    and v: "v \<in> set vs1" "v \<in> set vs2"
    and i: "a1 \<le> i" "i < b1" "a2 \<le> i" "i < b2"
  shows "\<exists>s1 s2.
     add_pulse nsq1 st1 du1 channel inputtype1 amplitude1 freq1 s = Inr s1 \<and>
     add_pulse nsq2 st2 du2 channel inputtype2 amplitude2 freq2 s1 = Inr s2 \<and>
     pulses s1 ! v ! c ! i = envelope s amplitude1 freq1 i \<and>
     pulses s2 ! v ! c ! i = envelope s amplitude2 freq2 i"
proof -
  note vb = variants_of_bound [OF v1 v(1)] and cb = row_of_bound [OF c]
  have ib: "i < num_points s" using slice_range_bounds [OF r1(2)] i by simp
  from add_pulse_samples [OF wf v1 c r1, where amplitude = amplitude1 and freq = freq1]
  obtain s1 where s1: "add_pulse nsq1 st1 du1 channel inputtype1 amplitude1 freq1 s = Inr s1"
    "wf_seq s1" "numseqs s1 = numseqs s" "awg_sources s1 = awg_sources s"
    "num_points s1 = num_points s" "time s1 = time s" "samp_rate s1 = samp_rate s"
    and smp1: "\<And>v r i. v < numseqs s \<Longrightarrow> r < 7 * length (awg_sources s) \<Longrightarrow> i < num_points s \<Longrightarrow>
        pulses s1 ! v ! r ! i =
          (if v \<in> set vs1 \<and> r = c \<and> a1 \<le> i \<and> i < b1 then envelope s amplitude1 freq1 i
           else pulses s ! v ! r ! i)"
    by blast
  have c': "row_of s1 channel = Some c"
    using c row_of_cong [OF s1(4)] by simp
  have v2': "variants_of s1 nsq2 = Some vs2"
    using v2 variants_of_cong [OF s1(3)] by simp
  have r2': "index_range inputtype2 st2 du2 s1 = (lo2, hi2)"
    "slice_range (num_points s1) lo2 hi2 = (a2, b2)"
    using r2 index_range_cong [OF s1(7)] s1(5) by simp_all
  from add_pulse_samples [OF s1(2) v2' c' r2', where amplitude = amplitude2 and freq = freq2]
  obtain s2 where s2: "add_pulse nsq2 st2 du2 channel inputtype2 amplitude2 freq2 s1 = Inr s2"
    and smp2: "\<And>v r i. v < numseqs s1 \<Longrightarrow> r < 7 * length (awg_sources s1) \<Longrightarrow> i < num_points s1 \<Longrightarrow>
        pulses s2 ! v ! r ! i =
          (if v \<in> set vs2 \<and> r = c \<and> a2 \<le> i \<and> i < b2 then envelope s1 amplitude2 freq2 i
           else pulses s1 ! v ! r ! i)"
    by blast
  have "pulses s1 ! v ! c ! i = envelope s amplitude1 freq1 i"
    using smp1 [OF vb cb ib] v i by simp
  moreover have "pulses s2 ! v ! c ! i = envelope s amplitude2 freq2 i"
    using smp2 [of v c i] vb cb ib s1(3-5) v i envelope_cong [OF s1(6)] by simp
  ultimately show ?thesis using s1(1) s2 by blast
qed

theorem later_pulse_overwrites_witness:
  "\<exists>s1 s2.
     add_pulse (Single 0) 0 3 0 ''time'' 1 None seq4 = Inr s1 \<and>
     add_pulse (Single 0) 2 2 0 ''time'' 2 None s1 = Inr s2 \<and>
     pulses s1 ! 0 ! 0 ! 2 = 1 \<and> pulses s2 ! 0 ! 0 ! 2 = 2"
proof -
  have h: "row_of seq4 0 = Some 0" "variants_of seq4 (Single 0) = Some [0]"
    "index_range ''time'' 0 3 seq4 = (0, 3)" "slice_range (num_points seq4) 0 3 = (0, 3)"
    "index_range ''time'' 2 2 seq4 = (2, 4)" "slice_range (num_points seq4) 2 4 = (2, 4)"
    by (simp_all add: seq_eval seq4_def slice_range_def slice_bound_def)
  have i: "(0::nat) \<in> set [0]" "(0::nat) \<le> 2" "(2::nat) < 3" "(2::nat) \<le> 2" "(2::nat) < 4"
    by simp_all
  from later_pulse_overwrites [OF wf_seq4 h(1) h(2) h(2) h(3) h(4) h(5) h(6) i(1) i(1) i(2-5),
      where ?amplitude1.0 = 1 and ?freq1.0 = None and ?amplitude2.0 = 2 and ?freq2.0 = None]
  obtain s1 s2 where
    "add_pulse (Single 0) 0 3 0 ''time'' 1 None seq4 = Inr s1"
    "add_pulse (Single 0) 2 2 0 ''time'' 2 None s1 = Inr s2"
    "pulses s1 ! 0 ! 0 ! 2 = envelope seq4 1 None 2"
    "pulses s2 ! 0 ! 0 ! 2 = envelope seq4 2 None 2"
    by blast
  moreover have "envelope seq4 1 None 2 = 1" "envelope seq4 2 None 2 = 2"
    by (simp_all add: envelope_def)
  ultimately show ?thesis by (intro exI [of _ s1] exI [of _ s2]) simp
qed

subsection \<open>Marker packing\<close>

lemma fold_pack_nth:
  assumes "length acc = n" and "\<forall>k\<in>set ks. length (pv ! (base + 1 + k)) = n" and "i < n"
  shows "fold (\<lambda>bit_offset packed.
             map (\<lambda>(p, m). p OR push_bit (7 - bit_offset) (if 0 < m then 1 else 0))
               (zip packed (pv ! (base + 1 + bit_offset)))) ks acc ! i =
         fold (\<lambda>k w. w OR push_bit (7 - k) (if 0 < pv ! (base + 1 + k) ! i then 1 else 0))
           ks (acc ! i :: 8 word)"
  using assms
proof (induction ks arbitrary: acc)
  case Nil
  then show ?case by simp
next
  case (Cons k ks)
  let ?acc' = "map (\<lambda>(p, m). p OR push_bit (7 - k) (if 0 < m then 1 else 0))
               (zip acc (pv ! (base + 1 + k)))"
  have l: "length ?acc' = n" using Cons.prems by simp
  have "?acc' ! i = acc ! i OR push_bit (7 - k) (if 0 < pv ! (base + 1 + k) ! i then 1 else 0)"
    using Cons.prems by simp
  with Cons.IH [OF l] Cons.prems show ?case by simp
qed

lemma unat_pack:
  "unat (fold (\<lambda>k w. w OR push_bit (7 - k) (if 0 < m k then 1 else 0)) [0..<6] (0 :: 8 word)) =
   marker_byte m"
proof -
  have u: "[0..<6] = [0, 1, 2, 3, 4, 5]" by (simp add: upt_rec)
  show ?thesis
    unfolding marker_byte_def u
    by (cases "0 < m 0"; cases "0 < m 1"; cases "0 < m 2"; cases "0 < m 3"; cases "0 < m 4";
        cases "0 < m 5") simp_all
qed


lemma make_source_nth:
  assumes "length final = length pls" and "v < length pls"
  shows "make_source pls si final ! v =
     (final ! v)[2 * si := pls ! v ! (7 * si),
                 2 * si + 1 := map (\<lambda>w. real (unat w)) (packed_row (pls ! v) (7 * si))]"
  using assms by (simp add: make_source_def Let_def)

lemma length_make_source: "length final = length pls \<Longrightarrow> length (make_source pls si final) = length pls"
  by (simp add: make_source_def)

lemma fold_make_source:
  assumes "length final = length pls"
  shows "length (fold (make_source pls) [0..<n] final) = length pls \<and>
    (\<forall>v<length pls.
       length (fold (make_source pls) [0..<n] final ! v) = length (final ! v) \<and>
       (\<forall>si<n. 2 * si + 1 < length (final ! v) \<longrightarrow>
          fold (make_source pls) [0..<n] final ! v ! (2 * si) = pls ! v ! (7 * si) \<and>
          fold (make_source pls) [0..<n] final ! v ! (2 * si + 1) =
            map (\<lambda>w. real (unat w)) (packed_row (pls ! v) (7 * si))))"
proof (induction n)
  case 0
  then show ?case using assms by simp
next
  case (Suc n)
  let ?F = "fold (make_source pls) [0..<n] final"
  have F: "fold (make_source pls) [0..<Suc n] final = make_source pls n ?F" by simp
  from Suc have lF: "length ?F = length pls" by simp
  show ?case
  proof (intro conjI allI impI)
    show "length (fold (make_source pls) [0..<Suc n] final) = length pls"
      unfolding F using lF by (rule length_make_source)
  next
    fix v assume v: "v < length pls"
    from Suc v have lv: "length (?F ! v) = length (final ! v)" by simp
    note nth = make_source_nth [OF lF v, of n]
    show "length (fold (make_source pls) [0..<Suc n] final ! v) = length (final ! v)"
      unfolding F nth using lv by simp
    fix si assume si: "si < Suc n" and b: "2 * si + 1 < length (final ! v)"
    show "fold (make_source pls) [0..<Suc n] final ! v ! (2 * si) = pls ! v ! (7 * si)"
    proof (cases "si = n")
      case True
      then show ?thesis unfolding F nth using lv b by simp
    next
      case False
      with si have "si < n" by simp
      with Suc v b have "?F ! v ! (2 * si) = pls ! v ! (7 * si)" by simp
      moreover have "2 * si \<noteq> 2 * n" "2 * si \<noteq> 2 * n + 1" using False by presburger+
      ultimately show ?thesis unfolding F nth by simp
    qed
    show "fold (make_source pls) [0..<Suc n] final ! v ! (2 * si + 1) =
            map (\<lambda>w. real (unat w)) (packed_row (pls ! v) (7 * si))"
    proof (cases "si = n")
      case True
      then show ?thesis unfolding F nth using lv b by simp
    next
      case False
      with si have "si < n" by simp
      with Suc v b have "?F ! v ! (2 * si + 1) =
            map (\<lambda>w. real (unat w)) (packed_row (pls ! v) (7 * si))" by simp
      moreover have "2 * si + 1 \<noteq> 2 * n" "2 * si + 1 \<noteq> 2 * n + 1" using False by presburger+
      ultimately show ?thesis unfolding F nth by simp
    qed
  qed
qed

lemma packed_row_nth:
  assumes wf: "wf_seq s" and v: "v < numseqs s" and si: "si < length (awg_sources s)"
    and i: "i < num_points s"
  shows "length (packed_row (pulses s ! v) (7 * si)) = num_points s"
    and "real (unat (packed_row (pulses s ! v) (7 * si) ! i)) =
         real (marker_byte (\<lambda>k. pulses s ! v ! (7 * si + 1 + k) ! i))"
proof -
  have rows: "length (pulses s ! v ! r) = num_points s" if "r < 7 * length (awg_sources s)" for r
    using wf_seq_nth(2) [OF wf v that] .
  have "awg_sources s \<noteq> []" using si by auto
  then have r0: "length (pulses s ! v ! 0) = num_points s" using rows [of 0] by simp
  have rk: "\<forall>k\<in>set [0..<6]. length (pulses s ! v ! (7 * si + 1 + k)) = num_points s"
    using rows si by auto
  have len: "length (fold (\<lambda>bit_offset packed.
             map (\<lambda>(p, m). p OR push_bit (7 - bit_offset) (if 0 < m then 1 else 0))
               (zip packed (pulses s ! v ! (7 * si + 1 + bit_offset)))) ks acc) = num_points s"
    if "length acc = num_points s" "set ks \<subseteq> set [0..<6]" for ks and acc :: "8 word list"
    using that
  proof (induction ks arbitrary: acc)
    case Nil
    then show ?case by simp
  next
    case (Cons k ks)
    then have "length (pulses s ! v ! (7 * si + 1 + k)) = num_points s" using rk by auto
    with Cons show ?case by simp
  qed
  show "length (packed_row (pulses s ! v) (7 * si)) = num_points s"
    unfolding packed_row_def by (rule len) (simp_all add: r0)
  have "packed_row (pulses s ! v) (7 * si) ! i =
      fold (\<lambda>k w. w OR push_bit (7 - k) (if 0 < pulses s ! v ! (7 * si + 1 + k) ! i then 1 else 0))
           [0..<6] (0 :: 8 word)"
    unfolding packed_row_def
    using fold_pack_nth [of "replicate (length (pulses s ! v ! 0)) 0" "num_points s" "[0..<6]"
        "pulses s ! v" "7 * si" i] r0 rk i
    by simp
  then show "real (unat (packed_row (pulses s ! v) (7 * si) ! i)) =
         real (marker_byte (\<lambda>k. pulses s ! v ! (7 * si + 1 + k) ! i))"
    by (simp only: unat_pack)
qed


lemma marker_byte_bound: "marker_byte m < 256"
proof -
  have "unat (fold (\<lambda>k w. w OR push_bit (7 - k) (if 0 < m k then 1 else 0)) [0..<6] (0 :: 8 word))
        < 2 ^ LENGTH(8)"
    by (rule unsigned_less)
  then show ?thesis by (simp only: unat_pack) simp
qed

text \<open>
  C4, as stated, fails in its example: marker rows holding 0, 1, 0, 1, 0, 1 at bit
  offsets 0 to 5 pack to 84, which is \<open>0b01010100\<close> (bits 6, 4 and 2), not to
  \<open>0b10101000 = 168\<close>.
\<close>

theorem marker_bits_counterexample:
  "make_final seq_markers = [[[0], [84]]] \<and> make_final seq_markers \<noteq> [[[0], [168]]]"
proof -
  have r: "replicate 2 [0 :: real] = [[0], [0]]" by (simp add: numeral_2_eq_2)
  show ?thesis
    by (simp add: make_final_def make_source_def packed_row_def seq_markers_def upt_rec r)
qed

text \<open>
  C4, amended. \<open>make\<close> builds a tensor with one variant per variant of \<open>pulses\<close>
  and two rows per source; it copies each source's analog row through unchanged and
  packs the six marker rows into one unsigned byte per sample (a value below 256), in
  which marker row \<open>k\<close> (0 to 5) contributes bit \<open>7 - k\<close> whenever its value is
  positive. Under this mapping, marker values 0, 1, 0, 1, 0, 1 at bit offsets 0 to 5
  pack to 84, \<open>0b01010100\<close>: bits 6, 4 and 2.
\<close>

theorem marker_packing:
  assumes "wf_seq s" and "v < numseqs s" and "si < length (awg_sources s)"
    and "i < num_points s"
  shows "length (make_final s) = numseqs s \<and>
     length (make_final s ! v) = 2 * length (awg_sources s) \<and>
     make_final s ! v ! (2 * si) = pulses s ! v ! (7 * si) \<and>
     make_final s ! v ! (2 * si + 1) ! i =
       real (marker_byte (\<lambda>k. pulses s ! v ! (7 * si + 1 + k) ! i)) \<and>
     marker_byte (\<lambda>k. pulses s ! v ! (7 * si + 1 + k) ! i) < 256 \<and>
     marker_byte ((!) [0, 1, 0, 1, 0, 1]) = 84"
proof -
  let ?f0 = "replicate (numseqs s)
          (replicate (2 * length (awg_sources s)) (replicate (num_points s) (0::real)))"
  have len: "length ?f0 = length (pulses s)" using assms(1) by (simp add: wf_seq_def)
  have v: "v < length (pulses s)" using assms(1,2) by (simp add: wf_seq_def)
  have b: "2 * si + 1 < length (?f0 ! v)" using assms(2,3) by simp
  from fold_make_source [OF len, of "length (awg_sources s)"] v b assms(2,3)
  have "length (make_final s) = length (pulses s)"
    "length (make_final s ! v) = 2 * length (awg_sources s)"
    "make_final s ! v ! (2 * si) = pulses s ! v ! (7 * si)"
    "make_final s ! v ! (2 * si + 1) =
       map (\<lambda>w. real (unat w)) (packed_row (pulses s ! v) (7 * si))"
    unfolding make_final_def by simp_all
  moreover note packed_row_nth [OF assms]
  moreover have "marker_byte ((!) [0, 1, 0, 1, 0, 1]) = 84"
    by (simp add: marker_byte_def upt_rec)
  ultimately show ?thesis
    using assms(1,4) marker_byte_bound by (simp add: wf_seq_def)
qed

theorem marker_packing_witness:
  "wf_seq seq_markers \<and> make_final seq_markers ! 0 ! 0 = pulses seq_markers ! 0 ! 0 \<and>
   make_final seq_markers ! 0 ! 1 ! 0 = 84"
proof -
  have h: "wf_seq seq_markers" "0 < numseqs seq_markers"
    "0 < length (awg_sources seq_markers)" "0 < num_points seq_markers"
    by (simp_all add: wf_seq_def seq_markers_def)
  have m: "marker_byte (\<lambda>k. pulses seq_markers ! 0 ! (7 * 0 + 1 + k) ! 0) = 84"
    by (simp add: marker_byte_def seq_markers_def upt_rec)
  from marker_packing [OF h] m h(1) show ?thesis by simp
qed

section \<open>Repeat expansion\<close>

subsection \<open>The shape of the analog tensor\<close>

lemma add_pulse_shape:
  assumes "add_pulse nsq st du channel inputtype amplitude freq s = Inr s'"
  shows "numseqs s' = numseqs s \<and> awg_sources s' = awg_sources s \<and>
         num_points s' = num_points s \<and> length (pulses s') = length (pulses s)"
proof -
  obtain st1 du1 s2 where q: "quantize inputtype st du s = (st1, du1, s2)"
    by (cases "quantize inputtype st du s") auto
  with quantize_state [of inputtype st du s] obtain k where s2: "s2 = s\<lparr>warning_counter := k\<rparr>"
    by auto
  show ?thesis
  proof (cases nsq)
    case (Single n)
    with assms q obtain t where
      "set_single s2 n channel (py_int st1) (py_int (st1 + du1))
         (scale amplitude (fr_of s2 freq (py_int st1) (py_int (st1 + du1)))) = Inr t"
      and s': "s' = s2\<lparr>pulses := t\<rparr>"
      by (auto simp: add_pulse_def Let_def split: sum.splits)
    then have "length t = length (pulses s2)"
      by (auto simp: set_single_def split: option.splits sum.splits)
    with s' s2 show ?thesis by simp
  next
    case (Pair n0 n1)
    with assms q obtain t where
      "set_range s2 n0 n1 channel (py_int st1) (py_int (st1 + du1))
         (scale amplitude (fr_of s2 freq (py_int st1) (py_int (st1 + du1)))) = Inr t"
      and s': "s' = s2\<lparr>pulses := t\<rparr>"
      by (auto simp: add_pulse_def Let_def split: sum.splits option.splits)
    then have "length t = length (pulses s2)"
      by (auto simp: set_range_def split_def Let_def split: option.splits sum.splits)
    with s' s2 show ?thesis by simp
  qed
qed

lemma add_pulses_shape:
  "add_pulses i mc pls s = Inr s' \<Longrightarrow>
   numseqs s' = numseqs s \<and> awg_sources s' = awg_sources s \<and>
   num_points s' = num_points s \<and> length (pulses s') = length (pulses s)"
proof (induction pls arbitrary: s)
  case Nil
  then show ?case by simp
next
  case (Cons p pls)
  from Cons.prems obtain a f ph s1 where
    "add_pulse (Single (int i)) (num_val (p_start p)) (num_val (p_duration p)) mc ''time'' a
       (Some (f, ph)) s = Inr s1"
    and "add_pulses i mc pls s1 = Inr s'"
    by (auto split: option.splits sum.splits)
  from add_pulse_shape [OF this(1)] Cons.IH [OF this(2)] show ?case by simp
qed

lemma channels_loop_shape:
  "channels_loop cm i blk (s, flags) = Inr (s', flags') \<Longrightarrow>
   numseqs s' = numseqs s \<and> awg_sources s' = awg_sources s \<and>
   num_points s' = num_points s \<and> length (pulses s') = length (pulses s)"
proof (induction blk arbitrary: s flags)
  case Nil
  then show ?case by simp
next
  case (Cons cp blk)
  obtain channel pls where cp: "cp = (channel, pls)" by (cases cp)
  from Cons.prems cp obtain tg where tg: "cm channel = Some tg"
    by (auto split: option.splits)
  show ?case
  proof (cases tg)
    case (Row mc)
    with Cons.prems cp tg obtain s1 where "add_pulses i mc pls s = Inr s1"
      and "channels_loop cm i blk (s1, flags) = Inr (s', flags')"
      by (auto split: sum.splits)
    from add_pulses_shape [OF this(1)] Cons.IH [OF this(2)] show ?thesis by simp
  next
    case (Flag f)
    with Cons.prems cp tg have "channels_loop cm i blk (s, flags @ [f]) = Inr (s', flags')"
      by simp
    from Cons.IH [OF this] show ?thesis .
  qed
qed

lemma blocks_loop_shape:
  "blocks_loop cm doc ibs (s, fl) = Inr (s', fl') \<Longrightarrow>
   numseqs s' = numseqs s \<and> awg_sources s' = awg_sources s \<and>
   num_points s' = num_points s \<and> length (pulses s') = length (pulses s)"
proof (induction ibs arbitrary: s fl)
  case Nil
  then show ?case by simp
next
  case (Cons ib ibs)
  obtain i b where ib: "ib = (i, b)" by (cases ib)
  from Cons.prems ib obtain blk s1 flags where
    "channels_loop cm i blk (s, []) = Inr (s1, flags)"
    and "blocks_loop cm doc ibs (s1, fl @ [(b, flags)]) = Inr (s', fl')"
    by (auto split: option.splits sum.splits)
  from channels_loop_shape [OF this(1)] Cons.IH [OF this(2)] show ?case by simp
qed

lemma seq_init_shape:
  "seq_init n dur sources rate = Inr s \<Longrightarrow>
   numseqs s = nat n \<and> awg_sources s = sources \<and> length (pulses s) = nat n"
  by (auto simp: seq_init_def Let_def split: if_splits)

lemma length_make_final:
  "length (pulses s) = numseqs s \<Longrightarrow> length (make_final s) = numseqs s"
  using fold_make_source [of "replicate (numseqs s)
          (replicate (2 * length (awg_sources s)) (replicate (num_points s) 0))" "pulses s"
          "length (awg_sources s)"]
  by (simp add: make_final_def)

lemma translate_variants:
  assumes "translate_yaml_to_numeric_instructions y fs = Inr fs'"
    and "yaml_file fs = Some doc" and "aux_file fs \<noteq> Some doc"
  shows "\<exists>z. npz_file fs' = Some z \<and>
           length (arr_final z) = card (set (sequencing_order doc)) \<and>
           arr_sequencer z = Some (sequencing_repeats doc) \<and>
           arr_sequencernames z = Some (sequencing_order doc)"
proof -
  let ?fs1 = "fs\<lparr>aux_file := Some doc\<rparr>"
  have sdc: "sequence_didnt_change fs = Inr (False, ?fs1)"
    using assms(2,3) by (cases "aux_file fs") (auto simp: sequence_didnt_change_def)
  let ?names = "sorted_pulse_blocks (sequencing_order doc)"
  from assms(1) sdc assms(2) obtain dur seq seq1 flag_chs where
    "doc_total_duration doc = Total dur"
    and init: "seq_init (int (length ?names)) (num_val dur) (y_awg_sources y) (y_samp_rate y) =
                 Inr seq"
    and loop: "blocks_loop (y_channel_mapping y) doc (enumerate 0 ?names) (seq, []) =
                 Inr (seq1, flag_chs)"
    and fs': "fs' = ?fs1\<lparr>npz_file := Some (make
                (seq1\<lparr>flag_channels := Some flag_chs,
                      sequencer := Some (sequencing_repeats doc),
                      sequencernames := Some (sequencing_order doc)\<rparr>))\<rparr>"
    by (auto simp: translate_yaml_to_numeric_instructions_def Let_def
        split: total.splits sum.splits)
  from seq_init_shape [OF init] blocks_loop_shape [OF loop]
  have "numseqs seq1 = length ?names" "length (pulses seq1) = length ?names" by simp_all
  then have "length (make_final (seq1\<lparr>flag_channels := Some flag_chs,
                      sequencer := Some (sequencing_repeats doc),
                      sequencernames := Some (sequencing_order doc)\<rparr>)) = length ?names"
    by (simp add: length_make_final)
  moreover have "length ?names = card (set (sequencing_order doc))"
    by (simp add: sorted_pulse_blocks_def length_remdups_card_conv)
  ultimately show ?thesis by (simp add: fs' make_def)
qed

subsection \<open>Repeats in both compilers\<close>

lemma translate_triple:
  "translate_yaml_to_numeric_instructions triple_obj triple_files =
     Inr (triple_files\<lparr>aux_file := Some triple_doc,
            npz_file := Some \<lparr>arr_final = [[[0], [0]]], arr_sequencer = Some [3],
              arr_sequencernames = Some [''A''], arr_flag_channels = Some [(''A'', [])]\<rparr>\<rparr>)"
proof -
  have r: "replicate 2 [0 :: real] = [[0], [0]]" by (simp add: numeral_2_eq_2)
  have i: "seq_init 1 1 [1] 1000000 =
     Inr \<lparr>samp_rate = 1000000, min_time = 1 / 1000000, num_points = 1, time = [0],
          numseqs = 1, awg_sources = [1],
          pulses = [replicate 7 [0]],
          sequencer = None, sequencernames = None, flag_channels = None,
          warning_counter = 0\<rparr>"
    by (simp add: seq_init_def py_int_def linspace_def Let_def)
  show ?thesis
    by (simp add: translate_yaml_to_numeric_instructions_def sequence_didnt_change_def
        triple_files_def triple_obj_def triple_doc_def sorted_pulse_blocks_def num_val_def i
        enumerate_eq_zip make_def make_final_def make_source_def packed_row_def upt_rec r
        Let_def)
qed

text \<open>
  C2, as stated, fails for the analog tensor: a program that plays its one block
  three times is written with one variant, where the sum of repeat count times native
  length (one variant per block) is three.
\<close>

theorem analog_repeats_counterexample:
  "analog_variants (translate_yaml_to_numeric_instructions triple_obj triple_files) = Some 1 \<and>
   expanded_count (\<lambda>b. 1) triple_doc = 3"
  by (simp add: translate_triple analog_variants_def expanded_count_def triple_doc_def)

text \<open>
  C2, amended. For every program that \<open>parse_pulse_sequence_file\<close> compiles, every
  block of the program has its native \<open>(channel_bits, durations)\<close> lists stored, and
  \<open>compile\<close> returns the concatenation, in program order over the paired (block,
  repeat count) entries, of each block's native lists repeated repeat-count times in a
  row (a count of zero or less contributes nothing), never interleaved; so the total
  event count is the sum of repeat count (if positive) times native length. The analog
  compiler does not expand repeats: the tensor that
  \<open>translate_yaml_to_numeric_instructions\<close> writes has one variant per distinct block
  name, and the repeat counts and the block order are stored beside it as they are.
\<close>

theorem repeat_expansion:
  "(parse_pulse_sequence_file (pb_init cm doc) = Inr s' \<longrightarrow>
      (\<forall>b\<in>set (sequencing_order doc). ps s' b \<noteq> None) \<and>
      compile s' =
        Inr (concat (map (\<lambda>(b, r). list_times (fst (the (ps s' b))) r)
               (zip (sequencing_order doc) (sequencing_repeats doc))),
             concat (map (\<lambda>(b, r). list_times (snd (the (ps s' b))) r)
               (zip (sequencing_order doc) (sequencing_repeats doc)))) \<and>
      length (concat (map (\<lambda>(b, r). list_times (fst (the (ps s' b))) r)
               (zip (sequencing_order doc) (sequencing_repeats doc)))) =
        (\<Sum>(b, r)\<leftarrow>zip (sequencing_order doc) (sequencing_repeats doc).
            nat r * length (fst (the (ps s' b)))) \<and>
      length (concat (map (\<lambda>(b, r). list_times (snd (the (ps s' b))) r)
               (zip (sequencing_order doc) (sequencing_repeats doc)))) =
        (\<Sum>(b, r)\<leftarrow>zip (sequencing_order doc) (sequencing_repeats doc).
            nat r * length (snd (the (ps s' b))))) \<and>
   (translate_yaml_to_numeric_instructions y fs = Inr fs' \<longrightarrow>
    yaml_file fs = Some doc' \<longrightarrow> aux_file fs \<noteq> Some doc' \<longrightarrow>
      (\<exists>z. npz_file fs' = Some z \<and>
           length (arr_final z) = card (set (sequencing_order doc')) \<and>
           arr_sequencer z = Some (sequencing_repeats doc') \<and>
           arr_sequencernames z = Some (sequencing_order doc')))"
proof (intro conjI impI)
  assume p: "parse_pulse_sequence_file (pb_init cm doc) = Inr s'"
  show "\<forall>b\<in>set (sequencing_order doc). ps s' b \<noteq> None"
    using p by (rule parse_file_props)
  show "compile s' =
        Inr (concat (map (\<lambda>(b, r). list_times (fst (the (ps s' b))) r)
               (zip (sequencing_order doc) (sequencing_repeats doc))),
             concat (map (\<lambda>(b, r). list_times (snd (the (ps s' b))) r)
               (zip (sequencing_order doc) (sequencing_repeats doc))))"
    using p by (rule compile_after_parse)
  show "length (concat (map (\<lambda>(b, r). list_times (fst (the (ps s' b))) r)
               (zip (sequencing_order doc) (sequencing_repeats doc)))) =
        (\<Sum>(b, r)\<leftarrow>zip (sequencing_order doc) (sequencing_repeats doc).
            nat r * length (fst (the (ps s' b))))"
    by (rule length_concat_list_times)
  show "length (concat (map (\<lambda>(b, r). list_times (snd (the (ps s' b))) r)
               (zip (sequencing_order doc) (sequencing_repeats doc)))) =
        (\<Sum>(b, r)\<leftarrow>zip (sequencing_order doc) (sequencing_repeats doc).
            nat r * length (snd (the (ps s' b))))"
    by (rule length_concat_list_times)
next
  assume "translate_yaml_to_numeric_instructions y fs = Inr fs'"
    "yaml_file fs = Some doc'" "aux_file fs \<noteq> Some doc'"
  then show "\<exists>z. npz_file fs' = Some z \<and>
           length (arr_final z) = card (set (sequencing_order doc')) \<and>
           arr_sequencer z = Some (sequencing_repeats doc') \<and>
           arr_sequencernames z = Some (sequencing_order doc')"
    by (rule translate_variants)
qed

theorem repeat_expansion_witness:
  "parse_pulse_sequence_file (pb_init [''a'' \<mapsto> 0, ''b'' \<mapsto> 1] two_channel_doc) =
     Inr ((pb_init [''a'' \<mapsto> 0, ''b'' \<mapsto> 1] two_channel_doc)
            \<lparr>ps := [''B'' \<mapsto> ([0, 1, 3, 2, 0],
                       [PyInt 1, PyInt 1, PyInt 1, PyInt 2, PyInt 5])]\<rparr>) \<and>
   compile ((pb_init [''a'' \<mapsto> 0, ''b'' \<mapsto> 1] two_channel_doc)
            \<lparr>ps := [''B'' \<mapsto> ([0, 1, 3, 2, 0],
                       [PyInt 1, PyInt 1, PyInt 1, PyInt 2, PyInt 5])]\<rparr>) =
     Inr ([0, 1, 3, 2, 0, 0, 1, 3, 2, 0],
          [PyInt 1, PyInt 1, PyInt 1, PyInt 2, PyInt 5,
           PyInt 1, PyInt 1, PyInt 1, PyInt 2, PyInt 5]) \<and>
   yaml_file triple_files = Some triple_doc \<and> aux_file triple_files \<noteq> Some triple_doc \<and>
   (\<exists>fs' z. translate_yaml_to_numeric_instructions triple_obj triple_files = Inr fs' \<and>
      npz_file fs' = Some z \<and> length (arr_final z) = 1 \<and> arr_sequencer z = Some [3])"
proof -
  let ?cm = "[''a'' \<mapsto> 0 :: nat, ''b'' \<mapsto> 1]"
  let ?s' = "(pb_init ?cm two_channel_doc)
            \<lparr>ps := [''B'' \<mapsto> ([0, 1, 3, 2, 0],
                       [PyInt 1, PyInt 1, PyInt 1, PyInt 2, PyInt 5])]\<rparr>"
  let ?fs' = "triple_files\<lparr>aux_file := Some triple_doc,
            npz_file := Some \<lparr>arr_final = [[[0], [0]]], arr_sequencer = Some [3],
              arr_sequencernames = Some [''A''], arr_flag_channels = Some [(''A'', [])]\<rparr>\<rparr>"
  have h1: "parse_pulse_sequence_file (pb_init ?cm two_channel_doc) = Inr ?s'"
    by (simp add: parse_pulse_sequence_file_def pb_init_def block_defs reset_attributes_def
      two_channel_doc_def unit_pulse_def num_defs Let_def enumerate_eq_zip upt_rec)
  have h2: "translate_yaml_to_numeric_instructions triple_obj triple_files = Inr ?fs'"
    by (rule translate_triple)
  have h3: "yaml_file triple_files = Some triple_doc" "aux_file triple_files \<noteq> Some triple_doc"
    by (simp_all add: triple_files_def)
  note T = repeat_expansion [of ?cm two_channel_doc ?s' triple_obj triple_files ?fs' triple_doc]
  have t2: "list_times xs 2 = xs @ xs" for xs :: "'a list"
    by (simp add: list_times_def numeral_2_eq_2)
  from T h1 have "compile ?s' =
        Inr (concat (map (\<lambda>(b, r). list_times (fst (the (ps ?s' b))) r)
               (zip (sequencing_order two_channel_doc) (sequencing_repeats two_channel_doc))),
             concat (map (\<lambda>(b, r). list_times (snd (the (ps ?s' b))) r)
               (zip (sequencing_order two_channel_doc) (sequencing_repeats two_channel_doc))))"
    by blast
  then have c: "compile ?s' =
     Inr ([0, 1, 3, 2, 0, 0, 1, 3, 2, 0],
          [PyInt 1, PyInt 1, PyInt 1, PyInt 2, PyInt 5,
           PyInt 1, PyInt 1, PyInt 1, PyInt 2, PyInt 5])"
    by (simp add: two_channel_doc_def t2)
  from T h2 h3 have "\<exists>z. npz_file ?fs' = Some z \<and>
           length (arr_final z) = card (set (sequencing_order triple_doc)) \<and>
           arr_sequencer z = Some (sequencing_repeats triple_doc) \<and>
           arr_sequencernames z = Some (sequencing_order triple_doc)"
    by blast
  then have "\<exists>z. npz_file ?fs' = Some z \<and> length (arr_final z) = 1 \<and>
      arr_sequencer z = Some [3]"
    by (simp add: triple_doc_def)
  with h1 h2 h3 c show ?thesis by blast
qed

end
